theory Spec2Isabelle
  imports Main "HOL-Library.Multiset"
begin

section \<open>Status values\<close>

text \<open>
  The error codes this file uses by name, and every other code of
  \<^verbatim>\<open>ErrorCodes\<close> as \<open>OtherError n\<close>.  A \<^verbatim>\<open>Status\<close> is a code with a
  reason; \<^verbatim>\<open>StatusWith<T>\<close> holds either a status or a value.
\<close>

datatype ErrorCodes = OK | LockBusy | LockNotFound | LockStateChangeFailed | OtherError nat

datatype Status = Status (code: ErrorCodes) (reason: string)

definition Status_OK :: Status where
  "Status_OK = Status OK []"

definition isOK :: "Status \<Rightarrow> bool" where
  "isOK s = (code s = OK)"

datatype 'a StatusWith = SWStatus Status | SWValue 'a

fun getStatus :: "'a StatusWith \<Rightarrow> Status" where
  "getStatus (SWStatus s) = s"
| "getStatus (SWValue v) = Status_OK"

text \<open>
  What can stop a call other than its return: \<^verbatim>\<open>getValue()\<close> on a
  \<^verbatim>\<open>StatusWith\<close> that holds no value, \<^verbatim>\<open>join()\<close> on a thread that is not
  joinable, and the destructor of a joinable \<^verbatim>\<open>std::thread\<close>.  A call returns,
  crashes in one of these ways, or blocks: it does not come back.
\<close>

datatype fault = NoValue | NotJoinable | Terminate

datatype 'a outcome = Returns 'a | Crashes fault | Blocks

fun getValue :: "'a StatusWith \<Rightarrow> fault + 'a" where
  "getValue (SWValue v) = Inr v"
| "getValue (SWStatus s) = Inl NoValue"

section \<open>The world outside the manager\<close>

text \<open>
  A lock session id is an \<^verbatim>\<open>OID\<close>.  The manager only generates, passes on and
  stores ids, so an id is the number its twelve bytes spell, taken from an unbounded
  supply: a generator that never repeats itself exists there.

  A \<^verbatim>\<open>milliseconds\<close> is a signed 64-bit count; it is written as an integer, and
  \<open>wrap64\<close> is what the 64 bits keep of the result of an operation.  The only
  arithmetic this file does on durations is the subtraction in \<^verbatim>\<open>lock\<close>.
\<close>

type_synonym OID = nat
type_synonym DistLockHandle = OID
type_synonym milliseconds = int
type_synonym Date_t = int

definition wrap64 :: "int \<Rightarrow> milliseconds" where
  "wrap64 x = (x + 9223372036854775808) mod 18446744073709551616 - 9223372036854775808"

text \<open>
  Every call that leaves the manager is recorded, in order, with what it was given
  and what it answered.
\<close>

datatype event =
    EvGen OID
  | EvGrabLock string OID string string Date_t string Status
  | EvUnlock DistLockHandle Status
  | EvGetLockByTS DistLockHandle
  | EvPing string Date_t
  | EvStopPing string Status
  | EvSleepFor milliseconds
  | EvLogWaited int string string
  | EvWarnUnlock DistLockHandle Status
  | EvWarnStopPing string Status
  | EvWaitFor milliseconds
  | EvJoin

text \<open>
  The collaborators that are not in this file are parameters: the catalog
  (\<^verbatim>\<open>DistLockCatalog\<close>), \<^verbatim>\<open>OID::gen\<close>, \<^verbatim>\<open>getThreadName\<close>,
  \<^verbatim>\<open>LocksType::isValid\<close> and the wake-up of the condition variable.  The
  generator of ids works on a state \<open>'g\<close> of its own, which is local to the process;
  the catalog and the condition variable work on the state \<open>'w\<close> of the rest of
  the world.  A catalog call also says how many microseconds it took, and
  \<open>cv_wait_for\<close> how long the wait lasted.
\<close>

record ('g, 'w, 'd) env =
  OID_gen :: "'g \<Rightarrow> OID \<times> 'g"
  getThreadName :: string
  cat_grabLock :: "string \<Rightarrow> OID \<Rightarrow> string \<Rightarrow> string \<Rightarrow> Date_t \<Rightarrow> string \<Rightarrow> 'w
                     \<Rightarrow> 'd StatusWith \<times> nat \<times> 'w"
  cat_unlock :: "DistLockHandle \<Rightarrow> 'w \<Rightarrow> Status \<times> nat \<times> 'w"
  cat_getLockByTS :: "DistLockHandle \<Rightarrow> 'w \<Rightarrow> 'd StatusWith \<times> nat \<times> 'w"
  cat_ping :: "string \<Rightarrow> Date_t \<Rightarrow> 'w \<Rightarrow> Status \<times> nat \<times> 'w"
  cat_stopPing :: "string \<Rightarrow> 'w \<Rightarrow> Status \<times> nat \<times> 'w"
  LocksType_isValid :: "'d \<Rightarrow> bool"
  cv_wait_for :: "milliseconds \<Rightarrow> 'w \<Rightarrow> nat \<times> 'w"

text \<open>
  The clock of the world is the wall clock, in microseconds.  It moves while the
  caller is in a call that leaves the process or asleep: such a call takes the time
  it reports, and never less than one microsecond.  \<^verbatim>\<open>Date_t::now()\<close> reads the
  clock in milliseconds.
\<close>

record ('g, 'w) world =
  clock :: int
  trace :: "event list"
  oidgen :: 'g
  ext :: 'w

definition Date_now :: "('g, 'w) world \<Rightarrow> Date_t" where
  "Date_now w = clock w div 1000"

definition emit :: "event \<Rightarrow> ('g, 'w) world \<Rightarrow> ('g, 'w) world" where
  "emit e w = w\<lparr>trace := trace w @ [e]\<rparr>"

definition elapse :: "nat \<Rightarrow> 'w \<Rightarrow> ('g, 'w) world \<Rightarrow> ('g, 'w) world" where
  "elapse d x w = w\<lparr>clock := clock w + int (max 1 d), ext := x\<rparr>"

definition gen :: "('g, 'w, 'd) env \<Rightarrow> ('g, 'w) world \<Rightarrow> OID \<times> ('g, 'w) world" where
  "gen E w =
     (case OID_gen E (oidgen w) of (oid, g) \<Rightarrow> (oid, emit (EvGen oid) (w\<lparr>oidgen := g\<rparr>)))"

definition grabLock ::
  "('g, 'w, 'd) env \<Rightarrow> string \<Rightarrow> OID \<Rightarrow> string \<Rightarrow> string \<Rightarrow> Date_t \<Rightarrow> string \<Rightarrow> ('g, 'w) world
     \<Rightarrow> 'd StatusWith \<times> ('g, 'w) world" where
  "grabLock E name sid who pid now why w =
     (case cat_grabLock E name sid who pid now why (ext w) of
        (r, d, x) \<Rightarrow> (r, emit (EvGrabLock name sid who pid now why (getStatus r)) (elapse d x w)))"

definition catalog_unlock :: "('g, 'w, 'd) env \<Rightarrow> DistLockHandle \<Rightarrow> ('g, 'w) world \<Rightarrow> Status \<times> ('g, 'w) world" where
  "catalog_unlock E h w =
     (case cat_unlock E h (ext w) of (s, d, x) \<Rightarrow> (s, emit (EvUnlock h s) (elapse d x w)))"

definition getLockByTS ::
  "('g, 'w, 'd) env \<Rightarrow> DistLockHandle \<Rightarrow> ('g, 'w) world \<Rightarrow> 'd StatusWith \<times> ('g, 'w) world" where
  "getLockByTS E h w =
     (case cat_getLockByTS E h (ext w) of (r, d, x) \<Rightarrow> (r, emit (EvGetLockByTS h) (elapse d x w)))"

definition ping :: "('g, 'w, 'd) env \<Rightarrow> string \<Rightarrow> Date_t \<Rightarrow> ('g, 'w) world \<Rightarrow> Status \<times> ('g, 'w) world" where
  "ping E pid now w =
     (case cat_ping E pid now (ext w) of (s, d, x) \<Rightarrow> (s, emit (EvPing pid now) (elapse d x w)))"

definition stopPing :: "('g, 'w, 'd) env \<Rightarrow> string \<Rightarrow> ('g, 'w) world \<Rightarrow> Status \<times> ('g, 'w) world" where
  "stopPing E pid w =
     (case cat_stopPing E pid (ext w) of (s, d, x) \<Rightarrow> (s, emit (EvStopPing pid s) (elapse d x w)))"

text \<open>
  Modelled from the spec: \<^verbatim>\<open>sleepFor\<close>, which is not in this file, suspends the
  caller for the duration it asks for, and not at all when that is not positive.
\<close>

definition sleepFor :: "milliseconds \<Rightarrow> ('g, 'w) world \<Rightarrow> ('g, 'w) world" where
  "sleepFor d w = emit (EvSleepFor d) (w\<lparr>clock := clock w + 1000 * max 0 d\<rparr>)"

section \<open>The manager\<close>

text \<open>
  The background thread runs \<^verbatim>\<open>doTask\<close>; \<open>task\<close> says where it stands: at the
  head of the \<^verbatim>\<open>while\<close> loop, inside the \<^verbatim>\<open>for\<close> loop with the part of
  \<^verbatim>\<open>toUnlockBatch\<close> it has not attempted yet (the wait follows when that is
  empty), or returned.
\<close>

datatype task = LoopHead | InBatch "DistLockHandle list" | Returned

record thread =
  joinable :: bool
  pc :: task

record manager =
  m_processID :: string
  m_pingInterval :: milliseconds
  m_isShutDown :: bool
  m_unlockList :: "DistLockHandle list"
  m_execThread :: "thread option"

definition queueUnlock :: "DistLockHandle \<Rightarrow> manager \<Rightarrow> manager" where
  "queueUnlock lockSessionID m = m\<lparr>m_unlockList := m_unlockList m @ [lockSessionID]\<rparr>"

definition isShutDown :: "manager \<Rightarrow> bool" where
  "isShutDown m = m_isShutDown m"

section \<open>lock\<close>

text \<open>The failure that \<^verbatim>\<open>lock\<close> returns when it leaves its loop without the lock.\<close>

definition timedOut :: "string \<Rightarrow> Status" where
  "timedOut name = Status LockBusy (''timed out waiting for '' @ name)"

text \<open>
  Modelled from the spec: \<^verbatim>\<open>Timer\<close>, which is not in this file, is a monotonic
  timer of the wall-clock time elapsed since it was started or reset;
  \<^verbatim>\<open>millis()\<close> reads it in whole milliseconds and \<^verbatim>\<open>seconds()\<close> in whole
  seconds.  \<open>t0\<close> is the reading of the clock at which the timer was started or
  reset.
\<close>

definition millis :: "int \<Rightarrow> ('g, 'w) world \<Rightarrow> int" where
  "millis t0 w = (clock w - t0) div 1000"

definition seconds :: "int \<Rightarrow> ('g, 'w) world \<Rightarrow> int" where
  "seconds t0 w = (clock w - t0) div 1000000"

text \<open>
  One equation per iteration of the \<^verbatim>\<open>while\<close> loop of \<^verbatim>\<open>lock\<close>.  The first
  argument bounds the iterations: \<open>None\<close> is a call that is still in its loop
  after that many.  \<open>t0\<close> and \<open>mt0\<close> are the starts of \<^verbatim>\<open>timer\<close> and
  \<^verbatim>\<open>msgTimer\<close>.  \<open>waitFor - milliseconds(timer.millis())\<close> is a subtraction of
  64-bit counts.
\<close>

primrec lock_loop ::
  "nat \<Rightarrow> ('g, 'w, 'd) env \<Rightarrow> string \<Rightarrow> string \<Rightarrow> milliseconds \<Rightarrow> milliseconds \<Rightarrow> int \<Rightarrow> int
     \<Rightarrow> manager \<Rightarrow> ('g, 'w) world \<Rightarrow> DistLockHandle StatusWith option \<times> manager \<times> ('g, 'w) world" where
  "lock_loop 0 E name whyMessage waitFor lockTryInterval t0 mt0 m w = (None, m, w)"
| "lock_loop (Suc n) E name whyMessage waitFor lockTryInterval t0 mt0 m w =
     (if waitFor \<le> 0 \<or> millis t0 w < waitFor then
        (case gen E w of (lockSessionID, w1) \<Rightarrow>
           let who = m_processID m @ '':'' @ getThreadName E in
           (case grabLock E name lockSessionID who (m_processID m) (Date_now w1) whyMessage w1 of
              (lockResult, w2) \<Rightarrow>
                let status = getStatus lockResult in
                if isOK status then (Some (SWValue lockSessionID), m, w2)
                else if code status \<noteq> LockStateChangeFailed then
                  (Some (SWStatus status), queueUnlock lockSessionID m, w2)
                else if waitFor = 0 then (Some (SWStatus (timedOut name)), m, w2)
                else
                  let logged = seconds mt0 w2 > 10;
                      w3 = (if logged
                            then emit (EvLogWaited (seconds t0 w2) name whyMessage) w2
                            else w2);
                      mt1 = (if logged then clock w2 else mt0);
                      timeRemaining = max 0 (wrap64 (waitFor - millis t0 w3))
                  in lock_loop n E name whyMessage waitFor lockTryInterval t0 mt1 m
                       (sleepFor (min lockTryInterval timeRemaining) w3)))
      else (Some (SWStatus (timedOut name)), m, w))"

definition lock ::
  "nat \<Rightarrow> ('g, 'w, 'd) env \<Rightarrow> string \<Rightarrow> string \<Rightarrow> milliseconds \<Rightarrow> milliseconds
     \<Rightarrow> manager \<Rightarrow> ('g, 'w) world \<Rightarrow> DistLockHandle StatusWith option \<times> manager \<times> ('g, 'w) world" where
  "lock n E name whyMessage waitFor lockTryInterval m w =
     lock_loop n E name whyMessage waitFor lockTryInterval (clock w) (clock w) m w"

section \<open>unlock and checkStatus\<close>

definition unlock :: "('g, 'w, 'd) env \<Rightarrow> DistLockHandle \<Rightarrow> manager \<Rightarrow> ('g, 'w) world \<Rightarrow> manager \<times> ('g, 'w) world" where
  "unlock E lockSessionID m w =
     (case catalog_unlock E lockSessionID w of
        (unlockStatus, w1) \<Rightarrow>
          if \<not> isOK unlockStatus then (queueUnlock lockSessionID m, w1) else (m, w1))"

definition checkStatus ::
  "('g, 'w, 'd) env \<Rightarrow> DistLockHandle \<Rightarrow> ('g, 'w) world \<Rightarrow> Status outcome \<times> ('g, 'w) world" where
  "checkStatus E lockHandle w =
     (case getLockByTS E lockHandle w of
        (lockStatus, w1) \<Rightarrow>
          if \<not> isOK (getStatus lockStatus) then (Returns (getStatus lockStatus), w1)
          else
            (case getValue lockStatus of
               Inl f \<Rightarrow> (Crashes f, w1)
             | Inr lockDoc \<Rightarrow>
                 if \<not> LocksType_isValid E lockDoc
                 then (Returns (Status LockNotFound ''lock owner changed''), w1)
                 else (Returns Status_OK, w1)))"

section \<open>The background task\<close>

text \<open>
  \<^verbatim>\<open>doTask\<close>, cut at the places where the thread can be overtaken by the calls of
  other threads: one step runs from the head of the \<^verbatim>\<open>while\<close> loop to the swap
  of the queue, or through one iteration of the \<^verbatim>\<open>for\<close> loop, or through the
  wait on the condition variable.
\<close>

fun doTask_step ::
  "('g, 'w, 'd) env \<Rightarrow> task \<Rightarrow> manager \<Rightarrow> ('g, 'w) world \<Rightarrow> task \<times> manager \<times> ('g, 'w) world" where
  "doTask_step E LoopHead m w =
     (if \<not> isShutDown m then
        (case ping E (m_processID m) (Date_now w) w of
           (pingStatus, w1) \<Rightarrow> (InBatch (m_unlockList m), m\<lparr>m_unlockList := []\<rparr>, w1))
      else (Returned, m, w))"
| "doTask_step E (InBatch (toUnlock # rest)) m w =
     (case catalog_unlock E toUnlock w of
        (unlockStatus, w1) \<Rightarrow>
          let w2 = (if \<not> isOK unlockStatus then emit (EvWarnUnlock toUnlock unlockStatus) w1 else w1);
              m1 = (if \<not> isOK unlockStatus then queueUnlock toUnlock m else m)
          in if isShutDown m1 then (Returned, m1, w2) else (InBatch rest, m1, w2))"
| "doTask_step E (InBatch []) m w =
     (case cv_wait_for E (m_pingInterval m) (ext w) of
        (d, x) \<Rightarrow> (LoopHead, m, emit (EvWaitFor (m_pingInterval m)) (elapse d x w)))"
| "doTask_step E Returned m w = (Returned, m, w)"

text \<open>The thread running alone, for at most \<open>n\<close> steps.\<close>

primrec doTask ::
  "nat \<Rightarrow> ('g, 'w, 'd) env \<Rightarrow> task \<Rightarrow> manager \<Rightarrow> ('g, 'w) world \<Rightarrow> task \<times> manager \<times> ('g, 'w) world" where
  "doTask 0 E ts m w = (ts, m, w)"
| "doTask (Suc n) E ts m w =
     (case doTask_step E ts m w of (ts', m', w') \<Rightarrow> doTask n E ts' m' w')"

text \<open>
  \<^verbatim>\<open>join()\<close> returns when \<^verbatim>\<open>doTask\<close> has returned; \<open>None\<close> is a join that waits
  for ever.
\<close>

partial_function (option) join_task ::
  "('g, 'w, 'd) env \<Rightarrow> task \<Rightarrow> manager \<Rightarrow> ('g, 'w) world \<Rightarrow> (manager \<times> ('g, 'w) world) option" where
  "join_task E ts m w =
     (if ts = Returned then Some (m, w)
      else (case doTask_step E ts m w of (ts', m', w') \<Rightarrow> join_task E ts' m' w'))"

definition thread_join ::
  "('g, 'w, 'd) env \<Rightarrow> thread \<Rightarrow> manager \<Rightarrow> ('g, 'w) world \<Rightarrow> (manager \<times> ('g, 'w) world) outcome" where
  "thread_join E t m w =
     (if joinable t then
        (case join_task E (pc t) m (emit EvJoin w) of
           None \<Rightarrow> Blocks
         | Some (m', w') \<Rightarrow> Returns (m', w'))
      else Crashes NotJoinable)"

text \<open>A step of the background thread, taken between the calls of other threads.\<close>

definition background_step :: "('g, 'w, 'd) env \<Rightarrow> manager \<Rightarrow> ('g, 'w) world \<Rightarrow> manager \<times> ('g, 'w) world" where
  "background_step E m w =
     (case m_execThread m of
        None \<Rightarrow> (m, w)
      | Some t \<Rightarrow>
          (case doTask_step E (pc t) m w of
             (ts', m', w') \<Rightarrow> (m'\<lparr>m_execThread := Some (t\<lparr>pc := ts'\<rparr>)\<rparr>, w')))"

section \<open>Construction, startUp and shutDown\<close>

text \<open>
  Modelled from the spec: the shutdown flag starts false (its initial value is
  given in the class declaration, which is not in this file).  The constructor sets
  the process id and the ping interval; the unlock queue is empty and there is no
  thread yet.
\<close>

definition ReplSetDistLockManager :: "string \<Rightarrow> milliseconds \<Rightarrow> manager" where
  "ReplSetDistLockManager processID pingInterval =
     \<lparr>m_processID = processID, m_pingInterval = pingInterval, m_isShutDown = False,
      m_unlockList = [], m_execThread = None\<rparr>"

text \<open>
  Assigning to \<^verbatim>\<open>_execThread\<close> destroys the thread object it held; destroying a
  joinable thread terminates the process.
\<close>

definition startUp :: "manager \<Rightarrow> manager outcome" where
  "startUp m =
     (case m_execThread m of
        None \<Rightarrow> Returns (m\<lparr>m_execThread := Some \<lparr>joinable = True, pc = LoopHead\<rparr>\<rparr>)
      | Some t \<Rightarrow>
          if joinable t then Crashes Terminate
          else Returns (m\<lparr>m_execThread := Some \<lparr>joinable = True, pc = LoopHead\<rparr>\<rparr>))"

text \<open>
  \<^verbatim>\<open>shutDown\<close> sets the flag, joins the thread when there is one and it is
  joinable, and calls \<^verbatim>\<open>stopPing\<close>, whose failure is a warning.  The
  \<^verbatim>\<open>notify_all\<close> only ends a wait of the task early; the wait is a step that
  ends by itself (\<open>cv_wait_for\<close> says when), so it has no counterpart here.
\<close>

definition shutDown :: "('g, 'w, 'd) env \<Rightarrow> manager \<Rightarrow> ('g, 'w) world \<Rightarrow> (manager \<times> ('g, 'w) world) outcome" where
  "shutDown E m w =
     (let m1 = m\<lparr>m_isShutDown := True\<rparr>;
          joined =
            (case m_execThread m1 of
               None \<Rightarrow> Returns (m1, w)
             | Some t \<Rightarrow>
                 if joinable t then
                   (case thread_join E t m1 w of
                      Returns (m2, w2) \<Rightarrow> Returns (m2\<lparr>m_execThread := None\<rparr>, w2)
                    | Crashes f \<Rightarrow> Crashes f
                    | Blocks \<Rightarrow> Blocks)
                 else Returns (m1, w))
      in case joined of
           Returns (m3, w3) \<Rightarrow>
             (case stopPing E (m_processID m3) w3 of
                (status, w4) \<Rightarrow>
                  Returns (m3, if \<not> isOK status
                               then emit (EvWarnStopPing (m_processID m3) status) w4 else w4))
         | Crashes f \<Rightarrow> Crashes f
         | Blocks \<Rightarrow> Blocks)"

section \<open>Sequences of calls\<close>

text \<open>
  The calls of all threads on one manager, in the order in which they take effect,
  with the steps of the background thread among them.  \<open>CallLock n\<close> is a call of
  \<^verbatim>\<open>lock\<close> that returns within \<open>n\<close> iterations of its loop.
\<close>

datatype call =
    CallStartUp
  | CallShutDown
  | CallIsShutDown
  | CallLock nat string string milliseconds milliseconds
  | CallUnlock DistLockHandle
  | CallCheckStatus DistLockHandle
  | BackgroundStep

fun exec :: "('g, 'w, 'd) env \<Rightarrow> call \<Rightarrow> manager \<Rightarrow> ('g, 'w) world \<Rightarrow> (manager \<times> ('g, 'w) world) outcome" where
  "exec E CallStartUp m w =
     (case startUp m of Returns m' \<Rightarrow> Returns (m', w) | Crashes f \<Rightarrow> Crashes f | Blocks \<Rightarrow> Blocks)"
| "exec E CallShutDown m w = shutDown E m w"
| "exec E CallIsShutDown m w = Returns (m, w)"
| "exec E (CallLock n name whyMessage waitFor lockTryInterval) m w =
     (case lock n E name whyMessage waitFor lockTryInterval m w of
        (None, m', w') \<Rightarrow> Blocks
      | (Some r, m', w') \<Rightarrow> Returns (m', w'))"
| "exec E (CallUnlock h) m w = Returns (unlock E h m w)"
| "exec E (CallCheckStatus h) m w =
     (case checkStatus E h w of
        (Returns st, w') \<Rightarrow> Returns (m, w')
      | (Crashes f, w') \<Rightarrow> Crashes f
      | (Blocks, w') \<Rightarrow> Blocks)"
| "exec E BackgroundStep m w = Returns (background_step E m w)"

fun run :: "('g, 'w, 'd) env \<Rightarrow> call list \<Rightarrow> manager \<Rightarrow> ('g, 'w) world \<Rightarrow> (manager \<times> ('g, 'w) world) outcome" where
  "run E [] m w = Returns (m, w)"
| "run E (c # cs) m w =
     (case exec E c m w of
        Returns (m', w') \<Rightarrow> run E cs m' w'
      | Crashes f \<Rightarrow> Crashes f
      | Blocks \<Rightarrow> Blocks)"

section \<open>Reading traces\<close>

fun ambiguous :: "event \<Rightarrow> bool" where
  "ambiguous (EvGrabLock name sid who pid now why st) = (\<not> isOK st \<and> code st \<noteq> LockStateChangeFailed)"
| "ambiguous e = False"

fun granted :: "event \<Rightarrow> bool" where
  "granted (EvGrabLock name sid who pid now why st) = isOK st"
| "granted e = False"

primrec gen_ids :: "event list \<Rightarrow> OID list" where
  "gen_ids [] = []"
| "gen_ids (e # es) = (case e of EvGen a \<Rightarrow> a # gen_ids es | _ \<Rightarrow> gen_ids es)"

primrec grab_ids :: "event list \<Rightarrow> OID list" where
  "grab_ids [] = []"
| "grab_ids (e # es) =
     (case e of EvGrabLock name sid who pid now why st \<Rightarrow> sid # grab_ids es | _ \<Rightarrow> grab_ids es)"

primrec sleeps :: "event list \<Rightarrow> milliseconds list" where
  "sleeps [] = []"
| "sleeps (e # es) = (case e of EvSleepFor d \<Rightarrow> d # sleeps es | _ \<Rightarrow> sleeps es)"

text \<open>
  \<open>fresh_use p es\<close>: in \<open>es\<close> every \<^verbatim>\<open>grabLock\<close> is given the id that the last
  \<^verbatim>\<open>OID::gen\<close> before it returned, and every id generated is given to one
  \<^verbatim>\<open>grabLock\<close>; \<open>p\<close> is the id generated and not yet used.
\<close>

primrec fresh_use :: "OID option \<Rightarrow> event list \<Rightarrow> bool" where
  "fresh_use p [] = (p = None)"
| "fresh_use p (e # es) =
     (case e of
        EvGen a \<Rightarrow> p = None \<and> fresh_use (Some a) es
      | EvGrabLock name sid who pid now why st \<Rightarrow> p = Some sid \<and> fresh_use None es
      | _ \<Rightarrow> fresh_use p es)"

text \<open>
  \<open>quiet w w'\<close>: from \<open>w\<close> to \<open>w'\<close> no id was generated and no \<^verbatim>\<open>grabLock\<close>
  called.  \<open>fresh_run issued w w'\<close>: from \<open>w\<close> to \<open>w'\<close> every \<^verbatim>\<open>grabLock\<close> was
  given an id generated for it alone, and these ids are distinct, were not issued
  before \<open>w\<close> and are issued in \<open>w'\<close>.
\<close>

definition quiet :: "('g, 'w) world \<Rightarrow> ('g, 'w) world \<Rightarrow> bool" where
  "quiet w w' =
     (oidgen w' = oidgen w \<and>
      (\<exists>evs. trace w' = trace w @ evs \<and> gen_ids evs = [] \<and> grab_ids evs = []))"

definition fresh_run :: "('g \<Rightarrow> OID set) \<Rightarrow> ('g, 'w) world \<Rightarrow> ('g, 'w) world \<Rightarrow> bool" where
  "fresh_run issued w w' =
     (\<exists>evs. trace w' = trace w @ evs \<and> fresh_use None evs \<and> grab_ids evs = gen_ids evs \<and>
        distinct (gen_ids evs) \<and> set (gen_ids evs) \<inter> issued (oidgen w) = {} \<and>
        issued (oidgen w) \<union> set (gen_ids evs) \<subseteq> issued (oidgen w'))"

text \<open>
  The unlocks the manager still owes the catalog: the handles in the unlock queue, and
  those of the batch the background task has swapped out and not attempted yet.
\<close>

definition pending :: "task \<Rightarrow> DistLockHandle list" where
  "pending ts = (case ts of InBatch toUnlockBatch \<Rightarrow> toUnlockBatch | _ \<Rightarrow> [])"

definition batch :: "manager \<Rightarrow> DistLockHandle list" where
  "batch m = (case m_execThread m of None \<Rightarrow> [] | Some t \<Rightarrow> pending (pc t))"

definition owed :: "manager \<Rightarrow> DistLockHandle multiset" where
  "owed m = mset (m_unlockList m) + mset (batch m)"

section \<open>A catalog for examples\<close>

text \<open>
  Ids are generated by counting.  The state of the catalog is the number of
  \<^verbatim>\<open>grabLock\<close> calls made; \<open>grab\<close> answers by it, every \<^verbatim>\<open>grabLock\<close> takes
  \<open>latency\<close> microseconds, \<^verbatim>\<open>unlock\<close> answers \<open>unl\<close> and \<^verbatim>\<open>stopPing\<close>
  \<open>stp\<close>.  A lock document is its validity; the lookup knows no lock for the
  handle 0, a valid one for 1 and one that is not valid for any other.
\<close>

definition test_env :: "(nat \<Rightarrow> Status) \<Rightarrow> nat \<Rightarrow> Status \<Rightarrow> Status \<Rightarrow> (nat, nat, bool) env" where
  "test_env grab latency unl stp =
     \<lparr>OID_gen = (\<lambda>x. (x, Suc x)),
      getThreadName = ''conn1'',
      cat_grabLock = (\<lambda>name sid who pid now why x.
         (if isOK (grab x) then SWValue True else SWStatus (grab x), latency, Suc x)),
      cat_unlock = (\<lambda>h x. (unl, 0, x)),
      cat_getLockByTS = (\<lambda>h x.
         (if h = 0 then SWStatus (Status LockNotFound ''no such lock'') else SWValue (h = 1), 0, x)),
      cat_ping = (\<lambda>pid now x. (Status_OK, 0, x)),
      cat_stopPing = (\<lambda>pid x. (stp, 0, x)),
      LocksType_isValid = (\<lambda>d. d),
      cv_wait_for = (\<lambda>i x. (nat (1000 * i), x))\<rparr>"

definition busy :: Status where
  "busy = Status LockStateChangeFailed ''lock is held''"

definition unreachable :: Status where
  "unreachable = Status (OtherError 6) ''host unreachable''"

definition world0 :: "(nat, nat) world" where
  "world0 = \<lparr>clock = 0, trace = [], oidgen = 0, ext = 0\<rparr>"

definition manager0 :: manager where
  "manager0 = ReplSetDistLockManager ''shard1'' 30000"

section \<open>One attempt\<close>

text \<open>
  The two calls that open an iteration of the loop of \<^verbatim>\<open>lock\<close>: \<^verbatim>\<open>OID::gen\<close>,
  then \<^verbatim>\<open>grabLock\<close> with the id; the id, the status and the world after them.
\<close>

definition attempt ::
  "('g, 'w, 'd) env \<Rightarrow> string \<Rightarrow> string \<Rightarrow> manager \<Rightarrow> ('g, 'w) world \<Rightarrow> OID \<times> Status \<times> ('g, 'w) world" where
  "attempt E name whyMessage m w =
     (case gen E w of (sid, w1) \<Rightarrow>
        case grabLock E name sid (m_processID m @ '':'' @ getThreadName E) (m_processID m)
               (Date_now w1) whyMessage w1 of (r, w2) \<Rightarrow> (sid, getStatus r, w2))"

text \<open>What one iteration that goes round again leaves behind.\<close>

definition retry :: "string \<Rightarrow> string \<Rightarrow> milliseconds \<Rightarrow> milliseconds \<Rightarrow> int \<Rightarrow> int \<Rightarrow> ('g, 'w) world \<Rightarrow> ('g, 'w) world" where
  "retry name y waitFor ivl t0 mt0 w2 =
     (let logged = seconds mt0 w2 > 10;
          w3 = (if logged then emit (EvLogWaited (seconds t0 w2) name y) w2 else w2)
      in sleepFor (min ivl (max 0 (wrap64 (waitFor - millis t0 w3)))) w3)"

lemma attempt_eq:
  assumes "OID_gen E (oidgen w) = (sid, g1)"
    and "cat_grabLock E name sid (m_processID m @ '':'' @ getThreadName E) (m_processID m)
           (Date_now w) y (ext w) = (res, d, x2)"
  shows "attempt E name y m w =
     (sid, getStatus res,
      w\<lparr>clock := clock w + int (max 1 d),
        trace := trace w @ [EvGen sid,
          EvGrabLock name sid (m_processID m @ '':'' @ getThreadName E) (m_processID m) (Date_now w) y
            (getStatus res)],
        oidgen := g1, ext := x2\<rparr>)"
  using assms by (simp add: attempt_def gen_def grabLock_def emit_def elapse_def Date_now_def)

lemma test_env_sel [simp]:
  "OID_gen (test_env g l u s) = (\<lambda>x. (x, Suc x))"
  "getThreadName (test_env g l u s) = ''conn1''"
  "cat_grabLock (test_env g l u s) = (\<lambda>name sid who pid now why x.
         (if isOK (g x) then SWValue True else SWStatus (g x), l, Suc x))"
  "cat_unlock (test_env g l u s) = (\<lambda>h x. (u, 0, x))"
  "cat_getLockByTS (test_env g l u s) = (\<lambda>h x.
         (if h = 0 then SWStatus (Status LockNotFound ''no such lock'') else SWValue (h = 1), 0, x))"
  "cat_ping (test_env g l u s) = (\<lambda>pid now x. (Status_OK, 0, x))"
  "cat_stopPing (test_env g l u s) = (\<lambda>pid x. (s, 0, x))"
  "LocksType_isValid (test_env g l u s) = (\<lambda>d. d)"
  "cv_wait_for (test_env g l u s) = (\<lambda>i x. (nat (1000 * i), x))"
  by (simp_all add: test_env_def)

lemma attempt_test_env:
  "attempt (test_env g l u s) name y m w =
     (oidgen w, (if isOK (g (ext w)) then Status_OK else g (ext w)),
      w\<lparr>clock := clock w + int (max 1 l),
        trace := trace w @ [EvGen (oidgen w),
          EvGrabLock name (oidgen w) (m_processID m @ '':'' @ ''conn1'') (m_processID m) (Date_now w) y
            (if isOK (g (ext w)) then Status_OK else g (ext w))],
        oidgen := Suc (oidgen w), ext := Suc (ext w)\<rparr>)"
  using attempt_eq[of "test_env g l u s" w "oidgen w" "Suc (oidgen w)" name m y
     "if isOK (g (ext w)) then SWValue True else SWStatus (g (ext w))" l "Suc (ext w)"]
  by simp

lemma status_simps [simp]:
  "isOK Status_OK" "\<not> isOK busy" "\<not> isOK unreachable"
  "code busy = LockStateChangeFailed" "code unreachable = OtherError 6"
  by (simp_all add: isOK_def Status_OK_def busy_def unreachable_def)

lemma attempt_trace:
  "attempt E name y m w = (sid, st, w2) \<Longrightarrow>
     trace w2 = trace w @ [EvGen sid,
       EvGrabLock name sid (m_processID m @ '':'' @ getThreadName E) (m_processID m) (Date_now w) y st]"
  by (auto simp: attempt_def gen_def grabLock_def emit_def elapse_def Date_now_def split: prod.splits)

lemma lock_loop_Suc:
  "lock_loop (Suc n) E name y waitFor ivl t0 mt0 m w =
     (if waitFor \<le> 0 \<or> millis t0 w < waitFor then
        (case attempt E name y m w of (sid, status, w2) \<Rightarrow>
           if isOK status then (Some (SWValue sid), m, w2)
           else if code status \<noteq> LockStateChangeFailed then
             (Some (SWStatus status), queueUnlock sid m, w2)
           else if waitFor = 0 then (Some (SWStatus (timedOut name)), m, w2)
           else lock_loop n E name y waitFor ivl t0
                  (if seconds mt0 w2 > 10 then clock w2 else mt0) m
                  (retry name y waitFor ivl t0 mt0 w2))
      else (Some (SWStatus (timedOut name)), m, w))"
proof -
  obtain sid w1 where g: "gen E w = (sid, w1)"
    by (cases "gen E w")
  obtain r w2 where gl:
    "grabLock E name sid (m_processID m @ '':'' @ getThreadName E) (m_processID m) (Date_now w1) y w1
       = (r, w2)"
    by (cases "grabLock E name sid (m_processID m @ '':'' @ getThreadName E) (m_processID m)
                 (Date_now w1) y w1")
  from gl show ?thesis
    by (simp add: attempt_def retry_def g Let_def)
qed

lemma lock_loop_numeral:
  "lock_loop (numeral k) E name y waitFor ivl t0 mt0 m w =
     lock_loop (Suc (pred_numeral k)) E name y waitFor ivl t0 mt0 m w"
  by (simp add: numeral_eq_Suc)

lemma lock_loop_retry:
  assumes "waitFor \<le> 0 \<or> millis t0 w < waitFor"
    and "attempt E name y m w = (sid, st, w2)"
    and "code st = LockStateChangeFailed" and "waitFor \<noteq> 0"
  shows "lock_loop (Suc n) E name y waitFor ivl t0 mt0 m w =
     lock_loop n E name y waitFor ivl t0 (if seconds mt0 w2 > 10 then clock w2 else mt0) m
       (retry name y waitFor ivl t0 mt0 w2)"
  using assms by (simp add: lock_loop_Suc isOK_def del: lock_loop.simps)

lemma retry_clock:
  "clock (retry name y waitFor ivl t0 mt0 w2) =
     clock w2 + 1000 * max 0 (min ivl (max 0 (wrap64 (waitFor - millis t0 w2))))"
  by (simp add: retry_def Let_def sleepFor_def emit_def millis_def)

lemma retry_ext:
  "ext (retry name y waitFor ivl t0 mt0 w2) = ext w2"
  "oidgen (retry name y waitFor ivl t0 mt0 w2) = oidgen w2"
  by (simp_all add: retry_def Let_def sleepFor_def emit_def)

lemma retry_trace:
  "\<exists>lg. trace (retry name y waitFor ivl t0 mt0 w2) =
     trace w2 @ lg @ [EvSleepFor (min ivl (max 0 (wrap64 (waitFor - millis t0 w2))))] \<and>
     (lg = [] \<or> lg = [EvLogWaited (seconds t0 w2) name y])"
  by (simp add: retry_def Let_def sleepFor_def emit_def millis_def)

declare lock_loop.simps(2) [simp del]

lemma attempt_cases:
  assumes "attempt E name y m w = (sid, st, w2)"
  obtains g1 res d x2 where "OID_gen E (oidgen w) = (sid, g1)"
    and "cat_grabLock E name sid (m_processID m @ '':'' @ getThreadName E) (m_processID m)
           (Date_now w) y (ext w) = (res, d, x2)"
    and "st = getStatus res" and "clock w2 = clock w + int (max 1 d)" and "oidgen w2 = g1"
proof -
  obtain g1 where g: "OID_gen E (oidgen w) = (sid, g1)"
    using assms by (auto simp: attempt_def gen_def grabLock_def split: prod.splits)
  obtain res d x2 where c:
    "cat_grabLock E name sid (m_processID m @ '':'' @ getThreadName E) (m_processID m) (Date_now w) y
       (ext w) = (res, d, x2)"
    by (metis prod_cases3)
  from assms attempt_eq[OF g c]
  have "st = getStatus res" "clock w2 = clock w + int (max 1 d)" "oidgen w2 = g1"
    by auto
  with g c that show thesis by blast
qed

lemma attempt_rejected:
  assumes rejects: "\<And>name sid who pid now y x.
      code (getStatus (fst (cat_grabLock E name sid who pid now y x))) = LockStateChangeFailed"
    and att: "attempt E name y m w = (sid, st, w2)"
  shows "code st = LockStateChangeFailed"
proof -
  from att obtain g1 res d x2 where
    c: "cat_grabLock E name sid (m_processID m @ '':'' @ getThreadName E) (m_processID m)
           (Date_now w) y (ext w) = (res, d, x2)" and st: "st = getStatus res"
    by (rule attempt_cases)
  from rejects[of name sid "m_processID m @ '':'' @ getThreadName E" "m_processID m" "Date_now w" y
      "ext w"] c st
  show ?thesis by simp
qed

lemma sleeps_append: "sleeps (a @ b) = sleeps a @ sleeps b"
  by (induction a) (auto split: event.splits)

lemma grab_ids_append: "grab_ids (a @ b) = grab_ids a @ grab_ids b"
  by (induction a) (auto split: event.splits)

lemma gen_ids_append: "gen_ids (a @ b) = gen_ids a @ gen_ids b"
  by (induction a) (auto split: event.splits)

lemma wrap64_id:
  "- 9223372036854775808 \<le> x \<Longrightarrow> x < 9223372036854775808 \<Longrightarrow> wrap64 x = x"
  by (simp add: wrap64_def)

lemma div1000:
  fixes x :: int
  obtains q r where "x = 1000 * q + r" and "0 \<le> r" and "r < 1000" and "x div 1000 = q"
  by (rule that[of "x div 1000" "x mod 1000"]) simp_all

lemma millis_less_iff: "millis t0 w < t \<longleftrightarrow> clock w - t0 < 1000 * t"
proof -
  obtain q r where "clock w - t0 = 1000 * q + r" "0 \<le> r" "r < 1000" "(clock w - t0) div 1000 = q"
    by (rule div1000)
  then show ?thesis
    unfolding millis_def by auto
qed

lemma millis_le_iff: "t \<le> millis t0 w \<longleftrightarrow> 1000 * t \<le> clock w - t0"
  using millis_less_iff[of t0 w t] by auto

lemma millis_mono: "clock w \<le> clock w' \<Longrightarrow> millis t0 w \<le> millis t0 w'"
  unfolding millis_def by (simp add: zdiv_mono1)

lemma retry_quiet:
  "\<not> 10 < seconds mt0 w2 \<Longrightarrow>
     retry name y waitFor ivl t0 mt0 w2 =
       sleepFor (min ivl (max 0 (wrap64 (waitFor - millis t0 w2)))) w2"
  by (simp add: retry_def)

lemma retry_logged:
  "10 < seconds mt0 w2 \<Longrightarrow>
     retry name y waitFor ivl t0 mt0 w2 =
       sleepFor (min ivl (max 0 (wrap64 (waitFor - millis t0 w2))))
         (emit (EvLogWaited (seconds t0 w2) name y) w2)"
  by (simp add: retry_def emit_def millis_def)

lemmas lock_eval =
  attempt_test_env retry_quiet retry_logged sleepFor_def emit_def isOK_def timedOut_def
  wrap64_def millis_def seconds_def Date_now_def
  world0_def manager0_def ReplSetDistLockManager_def queueUnlock_def
  busy_def unreachable_def Status_OK_def

section \<open>Steps of the background task\<close>

lemma doTask_step_manager:
  assumes "doTask_step E ts m w = (ts', m', w')"
  shows "m_isShutDown m' = m_isShutDown m \<and> m_processID m' = m_processID m \<and>
         m_pingInterval m' = m_pingInterval m \<and> m_execThread m' = m_execThread m"
proof (cases ts)
  case LoopHead
  with assms show ?thesis
    by (auto simp: isShutDown_def split: if_splits prod.splits)
next
  case (InBatch xs)
  with assms show ?thesis
    by (cases xs) (auto simp: isShutDown_def queueUnlock_def Let_def split: if_splits prod.splits)
next
  case Returned
  with assms show ?thesis by simp
qed

lemma doTask_step_trace:
  assumes "doTask_step E ts m w = (ts', m', w')"
  shows "\<exists>evs. trace w' = trace w @ evs \<and> EvJoin \<notin> set evs"
proof (cases ts)
  case LoopHead
  with assms show ?thesis
    by (auto simp: ping_def emit_def elapse_def split: if_splits prod.splits)
next
  case (InBatch xs)
  with assms show ?thesis
    by (cases xs)
       (auto simp: catalog_unlock_def emit_def elapse_def Let_def split: if_splits prod.splits)
next
  case Returned
  with assms show ?thesis by simp
qed

lemma quiet_refl: "quiet w w"
  by (simp add: quiet_def)

lemma quiet_trans: "quiet w w1 \<Longrightarrow> quiet w1 w2 \<Longrightarrow> quiet w w2"
  by (auto simp: quiet_def gen_ids_append grab_ids_append)

lemma doTask_step_quiet:
  assumes "doTask_step E ts m w = (ts', m', w')"
  shows "quiet w w'"
proof (cases ts)
  case LoopHead
  with assms show ?thesis
    by (auto simp: quiet_def ping_def emit_def elapse_def split: if_splits prod.splits)
next
  case (InBatch xs)
  with assms show ?thesis
    by (cases xs)
       (auto simp: quiet_def catalog_unlock_def emit_def elapse_def Let_def
             split: if_splits prod.splits)
next
  case Returned
  with assms show ?thesis by (simp add: quiet_def)
qed

text \<open>Once the flag is set the task returns: within one step, or two when it was about to wait.\<close>

lemma join_task_Returned: "join_task E Returned m w = Some (m, w)"
  by (subst join_task.simps) simp

lemma join_task_step:
  "ts \<noteq> Returned \<Longrightarrow> doTask_step E ts m w = (ts', m', w') \<Longrightarrow>
     join_task E ts m w = join_task E ts' m' w'"
  by (subst join_task.simps) simp

lemma doTask_step_shut:
  assumes "isShutDown m" and "doTask_step E ts m w = (ts', m', w')"
  shows "ts' = Returned \<or> (ts = InBatch [] \<and> ts' = LoopHead)"
proof (cases ts)
  case LoopHead
  with assms show ?thesis by simp
next
  case (InBatch xs)
  with assms show ?thesis
    by (cases xs) (auto simp: isShutDown_def queueUnlock_def Let_def split: if_splits prod.splits)
next
  case Returned
  with assms show ?thesis by simp
qed

lemma join_task_shut:
  assumes shut: "isShutDown m"
  shows "\<exists>m' w' evs. join_task E ts m w = Some (m', w') \<and> m_isShutDown m' \<and>
           m_processID m' = m_processID m \<and> m_execThread m' = m_execThread m \<and>
           trace w' = trace w @ evs \<and> EvJoin \<notin> set evs \<and> quiet w w'"
proof (cases "ts = Returned")
  case True
  with shut show ?thesis
    by (simp add: join_task_Returned isShutDown_def quiet_refl)
next
  case False
  obtain ts1 m1 w1 where s1: "doTask_step E ts m w = (ts1, m1, w1)"
    by (cases "doTask_step E ts m w")
  note j1 = join_task_step[OF False s1]
  note f1 = doTask_step_manager[OF s1]
  from doTask_step_trace[OF s1] obtain evs1 where
    t1: "trace w1 = trace w @ evs1" "EvJoin \<notin> set evs1"
    by blast
  note q1 = doTask_step_quiet[OF s1]
  show ?thesis
  proof (cases "ts1 = Returned")
    case True
    with j1 f1 t1 q1 shut show ?thesis
      by (simp add: join_task_Returned isShutDown_def)
  next
    case nr: False
    with doTask_step_shut[OF shut s1] have l: "ts1 = LoopHead"
      by simp
    have shut1: "isShutDown m1"
      using shut f1 by (simp add: isShutDown_def)
    then have s2: "doTask_step E ts1 m1 w1 = (Returned, m1, w1)"
      by (simp add: l)
    have "join_task E ts m w = Some (m1, w1)"
      using j1 join_task_step[OF nr s2] by (simp add: join_task_Returned)
    with f1 t1 q1 shut show ?thesis
      by (simp add: isShutDown_def)
  qed
qed

lemma lock_loop_manager:
  "lock_loop n E name y waitFor ivl t0 mt0 m w = (r, m', w') \<Longrightarrow>
     m' = m \<or> (\<exists>sid. m' = queueUnlock sid m)"
proof (induction n arbitrary: w mt0)
  case 0
  then show ?case by simp
next
  case (Suc n)
  obtain sid st w2 where att: "attempt E name y m w = (sid, st, w2)"
    by (cases "attempt E name y m w")
  from Suc.prems att show ?case
    by (auto simp: lock_loop_Suc split: if_splits dest: Suc.IH)
qed

section \<open>What shutDown does\<close>

lemma shutDown_returns:
  "\<exists>m1 w1 st evs.
     shutDown E m w = Returns (m1, w1) \<and> m_isShutDown m1 \<and> m_processID m1 = m_processID m \<and>
     (m_execThread m1 = None \<or> (\<exists>t. m_execThread m1 = Some t \<and> \<not> joinable t)) \<and>
     (m_execThread m = None \<or> (\<exists>t. m_execThread m = Some t \<and> \<not> joinable t) \<longrightarrow>
        m1 = m\<lparr>m_isShutDown := True\<rparr> \<and> evs = []) \<and>
     trace w1 = trace w @ evs @ EvStopPing (m_processID m) st #
                  (if isOK st then [] else [EvWarnStopPing (m_processID m) st])"
proof -
  define m0 where "m0 = m\<lparr>m_isShutDown := True\<rparr>"
  have shut: "isShutDown m0"
    by (simp add: m0_def isShutDown_def)
  have stop: "\<exists>st. (case stopPing E pid w3 of
                 (status, w4) \<Rightarrow>
                   Returns (m3, if \<not> isOK status then emit (EvWarnStopPing pid status) w4 else w4)) =
               Returns (m3, w1) \<longrightarrow>
             trace w1 = trace w3 @ EvStopPing pid st # (if isOK st then [] else [EvWarnStopPing pid st])"
    for pid w3 m3 w1
    by (auto simp: stopPing_def emit_def elapse_def split: prod.splits)
  show ?thesis
  proof (cases "\<exists>t. m_execThread m = Some t \<and> joinable t")
    case False
    then have j: "(case m_execThread m0 of
               None \<Rightarrow> Returns (m0, w)
             | Some t \<Rightarrow>
                 if joinable t then
                   (case thread_join E t m0 w of
                      Returns (m2, w2) \<Rightarrow> Returns (m2\<lparr>m_execThread := None\<rparr>, w2)
                    | Crashes f \<Rightarrow> Crashes f
                    | Blocks \<Rightarrow> Blocks)
                 else Returns (m0, w)) = Returns (m0, w)"
      by (auto simp: m0_def split: option.splits)
    obtain st w4 where sp: "stopPing E (m_processID m) w = (st, w4)"
      by (cases "stopPing E (m_processID m) w")
    then have tr: "trace w4 = trace w @ [EvStopPing (m_processID m) st]"
      by (auto simp: stopPing_def emit_def elapse_def split: prod.splits)
    have pid0: "m_processID m0 = m_processID m"
      by (simp add: m0_def)
    have "shutDown E m w =
            Returns (m0, if \<not> isOK st then emit (EvWarnStopPing (m_processID m) st) w4 else w4)"
      unfolding shutDown_def Let_def m0_def[symmetric] using j sp pid0 by simp
    with False tr show ?thesis
      by (intro exI[of _ m0] exI[of _ "if \<not> isOK st then emit (EvWarnStopPing (m_processID m) st) w4 else w4"]
            exI[of _ st] exI[of _ "[]"])
         (auto simp: m0_def emit_def split: option.splits)
  next
    case True
    then obtain t where t: "m_execThread m = Some t" "joinable t"
      by blast
    have t0: "m_execThread m0 = Some t"
      using t by (simp add: m0_def)
    from join_task_shut[OF shut, of E "pc t" "emit EvJoin w"]
    obtain m2 w2 evs where
      j: "join_task E (pc t) m0 (emit EvJoin w) = Some (m2, w2)" and
      f: "m_isShutDown m2" "m_processID m2 = m_processID m0" and
      tr2: "trace w2 = trace (emit EvJoin w) @ evs"
      by blast
    obtain st w4 where sp: "stopPing E (m_processID m) w2 = (st, w4)"
      by (cases "stopPing E (m_processID m) w2")
    then have tr: "trace w4 = trace w2 @ [EvStopPing (m_processID m) st]"
      by (auto simp: stopPing_def emit_def elapse_def split: prod.splits)
    have pid: "m_processID m2 = m_processID m"
      using f by (simp add: m0_def)
    have "shutDown E m w =
            Returns (m2\<lparr>m_execThread := None\<rparr>,
                     if \<not> isOK st then emit (EvWarnStopPing (m_processID m) st) w4 else w4)"
      unfolding shutDown_def Let_def m0_def[symmetric] using t0 t(2) j sp pid
      by (simp add: thread_join_def)
    with t f pid tr tr2 show ?thesis
      by (intro exI[of _ "m2\<lparr>m_execThread := None\<rparr>"]
            exI[of _ "if \<not> isOK st then emit (EvWarnStopPing (m_processID m) st) w4 else w4"]
            exI[of _ st] exI[of _ "EvJoin # evs"])
         (auto simp: emit_def)
  qed
qed

lemma shutDown_flag_set: "shutDown E m w = Returns (m', w') \<Longrightarrow> m_isShutDown m'"
  using shutDown_returns[of E m w] by auto

lemma exec_keeps_flag:
  assumes "exec E c m w = Returns (m', w')" and "c \<noteq> CallShutDown"
  shows "m_isShutDown m' = m_isShutDown m"
proof (cases c)
  case CallStartUp
  with assms show ?thesis
    by (auto simp: startUp_def split: option.splits if_splits)
next
  case CallShutDown
  with assms show ?thesis by simp
next
  case CallIsShutDown
  with assms show ?thesis by simp
next
  case (CallLock n name y waitFor ivl)
  with assms obtain r where "lock_loop n E name y waitFor ivl (clock w) (clock w) m w = (r, m', w')"
    by (auto simp: lock_def split: prod.splits option.splits)
  from lock_loop_manager[OF this] show ?thesis
    by (auto simp: queueUnlock_def)
next
  case (CallUnlock h)
  with assms show ?thesis
    by (auto simp: unlock_def queueUnlock_def split: prod.splits if_splits)
next
  case (CallCheckStatus h)
  with assms show ?thesis
    by (auto split: prod.splits outcome.splits)
next
  case BackgroundStep
  show ?thesis
  proof (cases "m_execThread m")
    case None
    with assms BackgroundStep show ?thesis
      by (simp add: background_step_def)
  next
    case (Some t)
    obtain ts1 m1 w1 where s: "doTask_step E (pc t) m w = (ts1, m1, w1)"
      by (cases "doTask_step E (pc t) m w")
    with assms BackgroundStep Some doTask_step_manager[OF s] show ?thesis
      by (auto simp: background_step_def)
  qed
qed

section \<open>Ambiguous failures of grabLock\<close>

lemma lock_loop_ambiguous:
  "lock_loop n E name y waitFor ivl t0 mt0 m w = (r, m', w') \<Longrightarrow>
   \<exists>evs. trace w' = trace w @ evs \<and>
      (\<forall>e \<in> set evs. ambiguous e \<longrightarrow>
         (\<exists>pre nm sid who pid now yy st. e = EvGrabLock nm sid who pid now yy st \<and>
            evs = pre @ [e] \<and> (\<forall>e' \<in> set pre. \<not> ambiguous e') \<and>
            r = Some (SWStatus st) \<and> m' = queueUnlock sid m))"
proof (induction n arbitrary: w mt0)
  case 0
  then show ?case by simp
next
  case (Suc n)
  show ?case
  proof (cases "waitFor \<le> 0 \<or> millis t0 w < waitFor")
    case False
    with Suc.prems show ?thesis by (simp add: lock_loop_Suc)
  next
    case True
    obtain sid st w2 where att: "attempt E name y m w = (sid, st, w2)"
      by (cases "attempt E name y m w")
    note tr = attempt_trace[OF att]
    show ?thesis
    proof (cases "isOK st \<or> code st \<noteq> LockStateChangeFailed \<or> waitFor = 0")
      case True
      with Suc.prems \<open>waitFor \<le> 0 \<or> millis t0 w < waitFor\<close> att tr show ?thesis
        by (auto simp add: lock_loop_Suc split: if_splits)
    next
      case False
      define w4 where "w4 = retry name y waitFor ivl t0 mt0 w2"
      have rec: "lock_loop n E name y waitFor ivl t0
                   (if seconds mt0 w2 > 10 then clock w2 else mt0) m w4 = (r, m', w')"
        using Suc.prems lock_loop_retry[OF \<open>waitFor \<le> 0 \<or> millis t0 w < waitFor\<close> att] False
        by (simp add: w4_def)
      from Suc.IH[OF rec] obtain evs where evs: "trace w' = trace w4 @ evs"
        and amb: "\<forall>e \<in> set evs. ambiguous e \<longrightarrow>
         (\<exists>pre nm sid who pid now yy st. e = EvGrabLock nm sid who pid now yy st \<and>
            evs = pre @ [e] \<and> (\<forall>e' \<in> set pre. \<not> ambiguous e') \<and>
            r = Some (SWStatus st) \<and> m' = queueUnlock sid m)"
        by blast
      obtain mid where mid: "trace w4 = trace w @ mid" and namb: "\<forall>e \<in> set mid. \<not> ambiguous e"
        using tr False retry_trace[of name y waitFor ivl t0 mt0 w2] by (auto simp: w4_def)
      show ?thesis
      proof (rule exI[of _ "mid @ evs"], intro conjI ballI impI)
        show "trace w' = trace w @ mid @ evs" using evs mid by simp
      next
        fix e assume "e \<in> set (mid @ evs)" "ambiguous e"
        then have "e \<in> set evs" using namb by auto
        with amb \<open>ambiguous e\<close> obtain pre nm sid who pid now yy st where
          "e = EvGrabLock nm sid who pid now yy st" "evs = pre @ [e]"
          "\<forall>e' \<in> set pre. \<not> ambiguous e'" "r = Some (SWStatus st)" "m' = queueUnlock sid m"
          by blast
        then show "\<exists>pre nm sid who pid now yy st. e = EvGrabLock nm sid who pid now yy st \<and>
            mid @ evs = pre @ [e] \<and> (\<forall>e' \<in> set pre. \<not> ambiguous e') \<and>
            r = Some (SWStatus st) \<and> m' = queueUnlock sid m"
          using namb by - (rule exI[of _ "mid @ pre"], auto)
      qed
    qed
  qed
qed

text \<open>
  C1.  When a \<^verbatim>\<open>grabLock\<close> attempt of a call of \<^verbatim>\<open>lock\<close> fails with a status
  other than \<^verbatim>\<open>LockStateChangeFailed\<close>, the call returns that status, the session
  id of the attempt has been appended to the unlock queue, and the attempt is the
  last thing the call did: no further \<^verbatim>\<open>grabLock\<close> follows it, and none before it
  had failed that way.
\<close>

theorem lock_ambiguous_failure:
  assumes "lock n E name y waitFor ivl m w = (r, m', w')"
    and "trace w' = trace w @ evs"
    and "EvGrabLock nm sid who pid now yy st \<in> set evs"
    and "\<not> isOK st" and "code st \<noteq> LockStateChangeFailed"
  shows "r = Some (SWStatus st) \<and> m_unlockList m' = m_unlockList m @ [sid] \<and>
         (\<exists>pre. evs = pre @ [EvGrabLock nm sid who pid now yy st] \<and>
                (\<forall>e \<in> set pre. \<not> ambiguous e))"
proof -
  from lock_loop_ambiguous[OF assms(1)[unfolded lock_def]] assms(2)
  have "\<forall>e \<in> set evs. ambiguous e \<longrightarrow>
         (\<exists>pre nm sid who pid now yy st. e = EvGrabLock nm sid who pid now yy st \<and>
            evs = pre @ [e] \<and> (\<forall>e' \<in> set pre. \<not> ambiguous e') \<and>
            r = Some (SWStatus st) \<and> m' = queueUnlock sid m)"
    by auto
  with assms(3-5) show ?thesis
    by (fastforce simp: queueUnlock_def)
qed

text \<open>
  A clean rejection, then a host that cannot be reached: the call stops at the second
  attempt and queues its id.
\<close>

theorem lock_ambiguous_failure_witness:
  "lock 5 (test_env (\<lambda>x. if x < 1 then busy else unreachable) 0 Status_OK Status_OK)
      ''balancer'' ''doing balance round'' 1000 50 manager0 world0 =
     (Some (SWStatus unreachable), queueUnlock 1 manager0,
      \<lparr>clock = 50002,
       trace = [EvGen 0, EvGrabLock ''balancer'' 0 ''shard1:conn1'' ''shard1'' 0 ''doing balance round'' busy,
                EvSleepFor 50,
                EvGen 1, EvGrabLock ''balancer'' 1 ''shard1:conn1'' ''shard1'' 50 ''doing balance round'' unreachable],
       oidgen = 2, ext = 2\<rparr>)
   \<and> m_unlockList (queueUnlock 1 manager0) = m_unlockList manager0 @ [1]"
proof -
  let ?E = "test_env (\<lambda>x. if x < 1 then busy else unreachable) 0 Status_OK Status_OK"
  let ?w = "\<lparr>clock = 50002,
       trace = [EvGen 0, EvGrabLock ''balancer'' 0 ''shard1:conn1'' ''shard1'' 0 ''doing balance round'' busy,
                EvSleepFor 50,
                EvGen 1, EvGrabLock ''balancer'' 1 ''shard1:conn1'' ''shard1'' 50 ''doing balance round'' unreachable],
       oidgen = 2::nat, ext = 2::nat\<rparr>"
  have run: "lock 5 ?E ''balancer'' ''doing balance round'' 1000 50 manager0 world0 =
     (Some (SWStatus unreachable), queueUnlock 1 manager0, ?w)"
    unfolding lock_def
    by (((subst lock_loop_numeral)?, subst lock_loop_Suc, simp add: lock_eval)+)
  have "m_unlockList (queueUnlock 1 manager0) = m_unlockList manager0 @ [1]"
    using lock_ambiguous_failure[OF run, of "trace ?w" "''balancer''" 1 "''shard1:conn1''" "''shard1''"
        50 "''doing balance round''" unreachable]
    by (simp add: world0_def unreachable_def isOK_def)
  with run show ?thesis by simp
qed

section \<open>lock without waiting\<close>

text \<open>
  C3.  With \<^verbatim>\<open>waitFor\<close> zero a call of \<^verbatim>\<open>lock\<close> generates one session id, calls
  \<^verbatim>\<open>grabLock\<close> once with it and returns: the id when the catalog granted the lock,
  \<^verbatim>\<open>LockBusy\<close> when it answered \<^verbatim>\<open>LockStateChangeFailed\<close> (and the catalog's
  own status, with the id queued for unlock, on any other failure).  The two calls
  are all the call did: it never slept, and the only time that passed is the time
  \<^verbatim>\<open>grabLock\<close> took (it is passed \<^verbatim>\<open>Date_t::now()\<close> as read before it).
\<close>

theorem lock_waitFor_zero:
  assumes "OID_gen E (oidgen w) = (sid, g1)"
    and "cat_grabLock E name sid (m_processID m @ '':'' @ getThreadName E) (m_processID m)
           (Date_now w) y (ext w) = (res, d, x2)"
  shows "lock (Suc n) E name y 0 ivl m w =
     (Some (if isOK (getStatus res) then SWValue sid
            else if code (getStatus res) = LockStateChangeFailed then SWStatus (timedOut name)
            else SWStatus (getStatus res)),
      (if isOK (getStatus res) \<or> code (getStatus res) = LockStateChangeFailed then m
       else queueUnlock sid m),
      w\<lparr>clock := clock w + int (max 1 d),
        trace := trace w @ [EvGen sid,
          EvGrabLock name sid (m_processID m @ '':'' @ getThreadName E) (m_processID m) (Date_now w) y
            (getStatus res)],
        oidgen := g1, ext := x2\<rparr>)"
  by (simp add: lock_def lock_loop_Suc attempt_eq[OF assms])

text \<open>The lock is held by another session: one attempt, then \<^verbatim>\<open>LockBusy\<close>.\<close>

theorem lock_waitFor_zero_witness:
  "lock 1 (test_env (\<lambda>x. busy) 0 Status_OK Status_OK) ''balancer'' ''doing balance round'' 0 500
       manager0 world0 =
     (Some (SWStatus (Status LockBusy ''timed out waiting for balancer'')), manager0,
      \<lparr>clock = 1,
       trace = [EvGen 0,
         EvGrabLock ''balancer'' 0 ''shard1:conn1'' ''shard1'' 0 ''doing balance round'' busy],
       oidgen = 1, ext = 1\<rparr>)"
  using lock_waitFor_zero[of "test_env (\<lambda>x. busy) 0 Status_OK Status_OK" world0 0 1
      "''balancer''" manager0 "''doing balance round''" "SWStatus busy" 0 1 0 500]
  by (simp add: test_env_def world0_def manager0_def ReplSetDistLockManager_def busy_def isOK_def
      timedOut_def Date_now_def)

section \<open>Session ids\<close>

lemma fresh_use_append: "fresh_use p a \<Longrightarrow> fresh_use None b \<Longrightarrow> fresh_use p (a @ b)"
  by (induction a arbitrary: p) (auto split: event.splits)

lemma fresh_use_quiet: "gen_ids evs = [] \<Longrightarrow> grab_ids evs = [] \<Longrightarrow> fresh_use p evs = (p = None)"
  by (induction evs) (auto split: event.splits)

lemma attempt_issued:
  assumes fresh: "\<And>g. fst (OID_gen E g) \<notin> issued g"
    and grows: "\<And>g. insert (fst (OID_gen E g)) (issued g) \<subseteq> issued (snd (OID_gen E g))"
    and att: "attempt E name y m w = (sid, st, w2)"
  shows "sid \<notin> issued (oidgen w) \<and> insert sid (issued (oidgen w)) \<subseteq> issued (oidgen w2)"
proof -
  from att obtain g1 where g: "OID_gen E (oidgen w) = (sid, g1)" and g2: "oidgen w2 = g1"
    by (rule attempt_cases)
  with fresh[of "oidgen w"] grows[of "oidgen w"] show ?thesis
    by simp
qed

lemma lock_loop_fresh:
  assumes fresh: "\<And>g. fst (OID_gen E g) \<notin> issued g"
    and grows: "\<And>g. insert (fst (OID_gen E g)) (issued g) \<subseteq> issued (snd (OID_gen E g))"
  shows "lock_loop n E name y waitFor ivl t0 mt0 m w = (r, m', w') \<Longrightarrow>
    \<exists>evs. trace w' = trace w @ evs \<and> fresh_use None evs \<and> grab_ids evs = gen_ids evs \<and>
       distinct (gen_ids evs) \<and> set (gen_ids evs) \<inter> issued (oidgen w) = {} \<and>
       issued (oidgen w) \<union> set (gen_ids evs) \<subseteq> issued (oidgen w') \<and>
       (\<forall>h. r = Some (SWValue h) \<longrightarrow> gen_ids evs \<noteq> [] \<and> h = last (gen_ids evs))"
proof (induction n arbitrary: w mt0)
  case 0
  then show ?case by simp
next
  case (Suc n)
  show ?case
  proof (cases "waitFor \<le> 0 \<or> millis t0 w < waitFor")
    case False
    with Suc.prems show ?thesis by (auto simp add: lock_loop_Suc)
  next
    case True
    obtain sid st w2 where att: "attempt E name y m w = (sid, st, w2)"
      by (cases "attempt E name y m w")
    note tr = attempt_trace[OF att]
    note iss = attempt_issued[of E issued, OF fresh grows att]
    show ?thesis
    proof (cases "isOK st \<or> code st \<noteq> LockStateChangeFailed \<or> waitFor = 0")
      case stop: True
      have "w' = w2" and "\<forall>h. r = Some (SWValue h) \<longrightarrow> h = sid"
        using Suc.prems True att stop by (auto simp add: lock_loop_Suc split: if_splits)
      with tr iss show ?thesis
        by (intro exI[of _ "[EvGen sid, EvGrabLock name sid (m_processID m @ '':'' @ getThreadName E)
              (m_processID m) (Date_now w) y st]"]) auto
    next
      case False
      define w4 where "w4 = retry name y waitFor ivl t0 mt0 w2"
      have rec: "lock_loop n E name y waitFor ivl t0
                   (if seconds mt0 w2 > 10 then clock w2 else mt0) m w4 = (r, m', w')"
        using Suc.prems lock_loop_retry[OF True att] False by (simp add: w4_def)
      from Suc.IH[OF rec] obtain evs where evs: "trace w' = trace w4 @ evs"
        "fresh_use None evs" "grab_ids evs = gen_ids evs" "distinct (gen_ids evs)"
        "set (gen_ids evs) \<inter> issued (oidgen w4) = {}"
        "issued (oidgen w4) \<union> set (gen_ids evs) \<subseteq> issued (oidgen w')"
        "\<forall>h. r = Some (SWValue h) \<longrightarrow> gen_ids evs \<noteq> [] \<and> h = last (gen_ids evs)"
        by blast
      have gen4: "oidgen w4 = oidgen w2"
        by (simp add: w4_def retry_ext)
      obtain mid where mid: "trace w4 = trace w @ mid" "fresh_use None mid"
        "grab_ids mid = [sid]" "gen_ids mid = [sid]"
        using tr retry_trace[of name y waitFor ivl t0 mt0 w2] by (auto simp: w4_def)
      have "sid \<notin> set (gen_ids evs)"
        using evs(5) iss gen4 by auto
      then show ?thesis
        using evs mid iss gen4
        by (intro exI[of _ "mid @ evs"])
           (auto simp: gen_ids_append grab_ids_append fresh_use_append)
    qed
  qed
qed

lemma lock_loop_granted:
  "lock_loop n E name y waitFor ivl t0 mt0 m w = (r, m', w') \<Longrightarrow>
   \<exists>evs. trace w' = trace w @ evs \<and>
      (\<forall>e \<in> set evs. granted e \<longrightarrow>
         (\<exists>pre nm sid who pid now yy st. e = EvGrabLock nm sid who pid now yy st \<and>
            evs = pre @ [e] \<and> r = Some (SWValue sid) \<and> m' = m)) \<and>
      (\<forall>h. r = Some (SWValue h) \<longrightarrow>
         (\<exists>pre nm who pid now yy st. evs = pre @ [EvGrabLock nm h who pid now yy st] \<and> isOK st))"
proof (induction n arbitrary: w mt0)
  case 0
  then show ?case by simp
next
  case (Suc n)
  show ?case
  proof (cases "waitFor \<le> 0 \<or> millis t0 w < waitFor")
    case False
    with Suc.prems show ?thesis by (auto simp add: lock_loop_Suc)
  next
    case True
    obtain sid st w2 where att: "attempt E name y m w = (sid, st, w2)"
      by (cases "attempt E name y m w")
    note tr = attempt_trace[OF att]
    show ?thesis
    proof (cases "isOK st \<or> code st \<noteq> LockStateChangeFailed \<or> waitFor = 0")
      case stop: True
      have res: "w' = w2" "isOK st \<longrightarrow> r = Some (SWValue sid) \<and> m' = m"
        "\<forall>h. r = Some (SWValue h) \<longrightarrow> h = sid \<and> isOK st"
        using Suc.prems True att stop by (auto simp add: lock_loop_Suc split: if_splits)
      let ?g = "EvGrabLock name sid (m_processID m @ '':'' @ getThreadName E) (m_processID m)
                  (Date_now w) y st"
      show ?thesis
      proof (rule exI[of _ "[EvGen sid, ?g]"], intro conjI ballI impI allI)
        show "trace w' = trace w @ [EvGen sid, ?g]"
          using tr res(1) by simp
      next
        fix e assume "e \<in> set [EvGen sid, ?g]" "granted e"
        then have "e = ?g" "isOK st" by auto
        with res(2) show "\<exists>pre nm sid' who pid now yy st'. e = EvGrabLock nm sid' who pid now yy st' \<and>
            [EvGen sid, ?g] = pre @ [e] \<and> r = Some (SWValue sid') \<and> m' = m"
          by - (rule exI[of _ "[EvGen sid]"], auto)
      next
        fix h assume "r = Some (SWValue h)"
        with res(3) have "h = sid" "isOK st" by auto
        then show "\<exists>pre nm who pid now yy st'.
            [EvGen sid, ?g] = pre @ [EvGrabLock nm h who pid now yy st'] \<and> isOK st'"
          by - (rule exI[of _ "[EvGen sid]"], auto)
      qed
    next
      case False
      define w4 where "w4 = retry name y waitFor ivl t0 mt0 w2"
      have rec: "lock_loop n E name y waitFor ivl t0
                   (if seconds mt0 w2 > 10 then clock w2 else mt0) m w4 = (r, m', w')"
        using Suc.prems lock_loop_retry[OF True att] False by (simp add: w4_def)
      from Suc.IH[OF rec] obtain evs where evs: "trace w' = trace w4 @ evs"
        and gr: "\<forall>e \<in> set evs. granted e \<longrightarrow>
         (\<exists>pre nm sid who pid now yy st. e = EvGrabLock nm sid who pid now yy st \<and>
            evs = pre @ [e] \<and> r = Some (SWValue sid) \<and> m' = m)"
        and hd: "\<forall>h. r = Some (SWValue h) \<longrightarrow>
         (\<exists>pre nm who pid now yy st. evs = pre @ [EvGrabLock nm h who pid now yy st] \<and> isOK st)"
        by blast
      obtain mid where mid: "trace w4 = trace w @ mid" and ngr: "\<forall>e \<in> set mid. \<not> granted e"
        using tr False retry_trace[of name y waitFor ivl t0 mt0 w2] by (auto simp: w4_def)
      show ?thesis
      proof (rule exI[of _ "mid @ evs"], intro conjI ballI impI allI)
        show "trace w' = trace w @ mid @ evs" using evs mid by simp
      next
        fix e assume "e \<in> set (mid @ evs)" "granted e"
        then have "e \<in> set evs" using ngr by auto
        with gr \<open>granted e\<close> obtain pre nm sid who pid now yy st where
          "e = EvGrabLock nm sid who pid now yy st" "evs = pre @ [e]"
          "r = Some (SWValue sid)" "m' = m"
          by blast
        then show "\<exists>pre nm sid who pid now yy st. e = EvGrabLock nm sid who pid now yy st \<and>
            mid @ evs = pre @ [e] \<and> r = Some (SWValue sid) \<and> m' = m"
          by - (rule exI[of _ "mid @ pre"], auto)
      next
        fix h assume "r = Some (SWValue h)"
        with hd obtain pre nm who pid now yy st where
          "evs = pre @ [EvGrabLock nm h who pid now yy st]" "isOK st"
          by blast
        then show "\<exists>pre nm who pid now yy st.
            mid @ evs = pre @ [EvGrabLock nm h who pid now yy st] \<and> isOK st"
          by - (rule exI[of _ "mid @ pre"], auto)
      qed
    qed
  qed
qed

lemma quiet_fresh_run: "quiet w w' \<Longrightarrow> fresh_run issued w w'"
  by (auto simp: quiet_def fresh_run_def fresh_use_quiet)

lemma fresh_run_trans:
  assumes "fresh_run issued w w1" and "fresh_run issued w1 w2"
  shows "fresh_run issued w w2"
proof -
  from assms(1) obtain a where a: "trace w1 = trace w @ a" "fresh_use None a"
    "grab_ids a = gen_ids a" "distinct (gen_ids a)" "set (gen_ids a) \<inter> issued (oidgen w) = {}"
    "issued (oidgen w) \<union> set (gen_ids a) \<subseteq> issued (oidgen w1)"
    by (auto simp: fresh_run_def)
  from assms(2) obtain b where b: "trace w2 = trace w1 @ b" "fresh_use None b"
    "grab_ids b = gen_ids b" "distinct (gen_ids b)" "set (gen_ids b) \<inter> issued (oidgen w1) = {}"
    "issued (oidgen w1) \<union> set (gen_ids b) \<subseteq> issued (oidgen w2)"
    by (auto simp: fresh_run_def)
  have "set (gen_ids a) \<inter> set (gen_ids b) = {}" "set (gen_ids b) \<inter> issued (oidgen w) = {}"
    using a(6) b(5) by auto
  with a b show ?thesis
    unfolding fresh_run_def
    by (intro exI[of _ "a @ b"])
       (auto simp: gen_ids_append grab_ids_append fresh_use_append)
qed

lemma shutDown_quiet:
  assumes "shutDown E m w = Returns (m', w')"
  shows "quiet w w'"
proof -
  have stop: "quiet w3 (if \<not> isOK (fst (stopPing E pid w3))
                         then emit (EvWarnStopPing pid (fst (stopPing E pid w3))) (snd (stopPing E pid w3))
                         else snd (stopPing E pid w3))" for pid and w3 :: "('a, 'b) world"
    by (auto simp: quiet_def stopPing_def emit_def elapse_def split: prod.splits)
  define m0 where "m0 = m\<lparr>m_isShutDown := True\<rparr>"
  show ?thesis
  proof (cases "\<exists>t. m_execThread m = Some t \<and> joinable t")
    case False
    then have "m_execThread m0 = None \<or> (\<exists>t. m_execThread m0 = Some t \<and> \<not> joinable t)"
      by (cases "m_execThread m") (auto simp: m0_def)
    with assms have "w' = (if \<not> isOK (fst (stopPing E (m_processID m0) w))
        then emit (EvWarnStopPing (m_processID m0) (fst (stopPing E (m_processID m0) w)))
               (snd (stopPing E (m_processID m0) w))
        else snd (stopPing E (m_processID m0) w))"
      unfolding shutDown_def Let_def m0_def[symmetric]
      by (auto split: prod.splits if_splits)
    with stop[of w "m_processID m0"] show ?thesis by simp
  next
    case True
    then obtain t where t: "m_execThread m0 = Some t" "joinable t"
      by (auto simp: m0_def)
    with assms obtain m2 w2 where j: "join_task E (pc t) m0 (emit EvJoin w) = Some (m2, w2)"
      and w': "w' = (if \<not> isOK (fst (stopPing E (m_processID m2) w2))
        then emit (EvWarnStopPing (m_processID m2) (fst (stopPing E (m_processID m2) w2)))
               (snd (stopPing E (m_processID m2) w2))
        else snd (stopPing E (m_processID m2) w2))"
      unfolding shutDown_def Let_def m0_def[symmetric] thread_join_def
      by (auto split: prod.splits if_splits option.splits)
    have "quiet w (emit EvJoin w)"
      by (simp add: quiet_def emit_def)
    moreover have "quiet (emit EvJoin w) w2"
      using join_task_shut[of m0 E "pc t" "emit EvJoin w"] j
      by (auto simp: m0_def isShutDown_def)
    moreover have "quiet w2 w'"
      using stop[of w2 "m_processID m2"] w' by simp
    ultimately show ?thesis
      by (blast intro: quiet_trans)
  qed
qed

lemma exec_fresh_run:
  assumes fresh: "\<And>g. fst (OID_gen E g) \<notin> issued g"
    and grows: "\<And>g. insert (fst (OID_gen E g)) (issued g) \<subseteq> issued (snd (OID_gen E g))"
    and e: "exec E c m w = Returns (m', w')"
  shows "fresh_run issued w w'"
proof (cases c)
  case CallStartUp
  with e show ?thesis
    by (auto simp: quiet_refl intro!: quiet_fresh_run split: outcome.splits)
next
  case CallShutDown
  with e shutDown_quiet[of E m w m' w'] show ?thesis
    by (simp add: quiet_fresh_run)
next
  case CallIsShutDown
  with e show ?thesis
    by (auto simp: quiet_refl intro!: quiet_fresh_run)
next
  case (CallLock n name y waitFor ivl)
  with e obtain r where "lock_loop n E name y waitFor ivl (clock w) (clock w) m w = (r, m', w')"
    by (auto simp: lock_def split: prod.splits option.splits)
  from lock_loop_fresh[of E issued, OF fresh grows this] show ?thesis
    unfolding fresh_run_def by blast
next
  case (CallUnlock h)
  with e have "quiet w w'"
    by (auto simp: quiet_def unlock_def catalog_unlock_def emit_def elapse_def
             split: prod.splits if_splits)
  then show ?thesis by (rule quiet_fresh_run)
next
  case (CallCheckStatus h)
  with e have "quiet w w'"
    by (auto simp: quiet_def checkStatus_def getLockByTS_def emit_def elapse_def
             split: prod.splits if_splits sum.splits outcome.splits)
  then show ?thesis by (rule quiet_fresh_run)
next
  case BackgroundStep
  show ?thesis
  proof (cases "m_execThread m")
    case None
    with e BackgroundStep show ?thesis
      by (auto simp: background_step_def quiet_refl intro!: quiet_fresh_run)
  next
    case (Some t)
    obtain ts1 m1 w1 where s: "doTask_step E (pc t) m w = (ts1, m1, w1)"
      by (cases "doTask_step E (pc t) m w")
    with e BackgroundStep Some have "w' = w1"
      by (simp add: background_step_def)
    with doTask_step_quiet[OF s] show ?thesis
      by (simp add: quiet_fresh_run)
  qed
qed

lemma run_fresh_run:
  assumes fresh: "\<And>g. fst (OID_gen E g) \<notin> issued g"
    and grows: "\<And>g. insert (fst (OID_gen E g)) (issued g) \<subseteq> issued (snd (OID_gen E g))"
  shows "run E cs m w = Returns (m', w') \<Longrightarrow> fresh_run issued w w'"
proof (induction cs arbitrary: m w)
  case Nil
  then show ?case
    by (auto simp: quiet_refl intro!: quiet_fresh_run)
next
  case (Cons c cs)
  from Cons.prems obtain m1 w1 where
    e: "exec E c m w = Returns (m1, w1)" and r: "run E cs m1 w1 = Returns (m', w')"
    by (auto split: outcome.splits)
  from exec_fresh_run[of E issued, OF fresh grows e] Cons.IH[OF r] show ?case
    by (rule fresh_run_trans)
qed

text \<open>
  C9.  Every iteration of the loop of \<^verbatim>\<open>lock\<close> calls \<^verbatim>\<open>OID::gen\<close> and gives the id
  it returned to the \<^verbatim>\<open>grabLock\<close> that follows, and to no other.  Provided the
  generator never returns an id it has issued before (\<open>issued\<close> is the set of ids it
  has issued), the ids of the attempts of one call are distinct and none of them was
  issued before the call.  When an attempt succeeds, the call returns the id of that
  attempt as the handle, leaves the manager as it was, and the attempt is the last
  thing the call did; and a call that returns a handle returns the id of its last
  attempt, which succeeded.  Through any sequence of calls on the manager, of
  \<^verbatim>\<open>lock\<close> and of any other, no two attempts are given the same id.
\<close>

theorem lock_session_ids_fresh:
  assumes "\<And>g. fst (OID_gen E g) \<notin> issued g"
    and "\<And>g. insert (fst (OID_gen E g)) (issued g) \<subseteq> issued (snd (OID_gen E g))"
  shows "(lock n E name y waitFor ivl m w = (r, m', w') \<and> trace w' = trace w @ evs \<longrightarrow>
            fresh_use None evs \<and> distinct (grab_ids evs) \<and>
            set (grab_ids evs) \<inter> issued (oidgen w) = {} \<and>
            (\<forall>nm sid who pid now yy st.
               EvGrabLock nm sid who pid now yy st \<in> set evs \<and> isOK st \<longrightarrow>
                 r = Some (SWValue sid) \<and> m' = m \<and>
                 (\<exists>pre. evs = pre @ [EvGrabLock nm sid who pid now yy st])) \<and>
            (\<forall>h. r = Some (SWValue h) \<longrightarrow>
               grab_ids evs \<noteq> [] \<and> h = last (grab_ids evs) \<and>
               (\<exists>pre nm who pid now yy st.
                  evs = pre @ [EvGrabLock nm h who pid now yy st] \<and> isOK st))) \<and>
         (run E cs m w = Returns (m'', w'') \<and> trace w'' = trace w @ evs' \<longrightarrow>
            fresh_use None evs' \<and> distinct (grab_ids evs') \<and>
            set (grab_ids evs') \<inter> issued (oidgen w) = {})"
proof (rule conjI; rule impI)
  assume a: "lock n E name y waitFor ivl m w = (r, m', w') \<and> trace w' = trace w @ evs"
  then have l: "lock_loop n E name y waitFor ivl (clock w) (clock w) m w = (r, m', w')"
    by (simp add: lock_def)
  from lock_loop_fresh[of E issued, OF assms l]
  obtain es where es: "trace w' = trace w @ es" "fresh_use None es"
    "grab_ids es = gen_ids es" "distinct (gen_ids es)"
    "set (gen_ids es) \<inter> issued (oidgen w) = {}"
    "\<forall>h. r = Some (SWValue h) \<longrightarrow> gen_ids es \<noteq> [] \<and> h = last (gen_ids es)"
    by blast
  from lock_loop_granted[OF l]
  obtain gs where gs: "trace w' = trace w @ gs"
    "\<forall>e \<in> set gs. granted e \<longrightarrow>
         (\<exists>pre nm sid who pid now yy st. e = EvGrabLock nm sid who pid now yy st \<and>
            gs = pre @ [e] \<and> r = Some (SWValue sid) \<and> m' = m)"
    "\<forall>h. r = Some (SWValue h) \<longrightarrow>
         (\<exists>pre nm who pid now yy st. gs = pre @ [EvGrabLock nm h who pid now yy st] \<and> isOK st)"
    by blast
  have "es = evs" "gs = evs"
    using es(1) gs(1) a by simp_all
  note es = es[unfolded this] and gs = gs[unfolded this]
  have ok: "r = Some (SWValue sid) \<and> m' = m \<and>
            (\<exists>pre. evs = pre @ [EvGrabLock nm sid who pid now yy st])"
    if "EvGrabLock nm sid who pid now yy st \<in> set evs \<and> isOK st" for nm sid who pid now yy st
  proof -
    from that have "granted (EvGrabLock nm sid who pid now yy st)" by simp
    with gs(2) that show ?thesis by fastforce
  qed
  from es gs(3) ok
  show "fresh_use None evs \<and> distinct (grab_ids evs) \<and>
            set (grab_ids evs) \<inter> issued (oidgen w) = {} \<and>
            (\<forall>nm sid who pid now yy st.
               EvGrabLock nm sid who pid now yy st \<in> set evs \<and> isOK st \<longrightarrow>
                 r = Some (SWValue sid) \<and> m' = m \<and>
                 (\<exists>pre. evs = pre @ [EvGrabLock nm sid who pid now yy st])) \<and>
            (\<forall>h. r = Some (SWValue h) \<longrightarrow>
               grab_ids evs \<noteq> [] \<and> h = last (grab_ids evs) \<and>
               (\<exists>pre nm who pid now yy st.
                  evs = pre @ [EvGrabLock nm h who pid now yy st] \<and> isOK st))"
    by simp
next
  assume a: "run E cs m w = Returns (m'', w'') \<and> trace w'' = trace w @ evs'"
  with run_fresh_run[of E issued, OF assms, of cs m w m'' w'']
  obtain es where es: "trace w'' = trace w @ es" "fresh_use None es"
    "grab_ids es = gen_ids es" "distinct (gen_ids es)"
    "set (gen_ids es) \<inter> issued (oidgen w) = {}"
    by (auto simp: fresh_run_def)
  have "es = evs'"
    using es(1) a by simp
  with es show "fresh_use None evs' \<and> distinct (grab_ids evs') \<and>
            set (grab_ids evs') \<inter> issued (oidgen w) = {}"
    by simp
qed

text \<open>
  Three clean rejections, then the lock: four attempts with the ids 0, 1, 2 and 3,
  and the handle is 3.  After an unlock, a second call gets the lock with the id 4.
\<close>

theorem lock_session_ids_fresh_witness:
  "lock 9 (test_env (\<lambda>x. if x < 3 then busy else Status_OK) 0 Status_OK Status_OK)
       ''balancer'' ''doing balance round'' 1000 50 manager0 world0 =
     (Some (SWValue 3), manager0,
      \<lparr>clock = 150004,
       trace = [
         EvGen 0, EvGrabLock ''balancer'' 0 ''shard1:conn1'' ''shard1'' 0 ''doing balance round'' busy,
         EvSleepFor 50,
         EvGen 1, EvGrabLock ''balancer'' 1 ''shard1:conn1'' ''shard1'' 50 ''doing balance round'' busy,
         EvSleepFor 50,
         EvGen 2, EvGrabLock ''balancer'' 2 ''shard1:conn1'' ''shard1'' 100 ''doing balance round'' busy,
         EvSleepFor 50,
         EvGen 3, EvGrabLock ''balancer'' 3 ''shard1:conn1'' ''shard1'' 150 ''doing balance round''
                    Status_OK],
       oidgen = 4, ext = 4\<rparr>) \<and>
   run (test_env (\<lambda>x. if x < 3 then busy else Status_OK) 0 Status_OK Status_OK)
     [CallLock 9 ''balancer'' ''doing balance round'' 1000 50, CallUnlock 3,
      CallLock 1 ''balancer'' ''doing balance round'' 0 50] manager0 world0 =
     Returns (manager0,
      \<lparr>clock = 150006,
       trace = [
         EvGen 0, EvGrabLock ''balancer'' 0 ''shard1:conn1'' ''shard1'' 0 ''doing balance round'' busy,
         EvSleepFor 50,
         EvGen 1, EvGrabLock ''balancer'' 1 ''shard1:conn1'' ''shard1'' 50 ''doing balance round'' busy,
         EvSleepFor 50,
         EvGen 2, EvGrabLock ''balancer'' 2 ''shard1:conn1'' ''shard1'' 100 ''doing balance round'' busy,
         EvSleepFor 50,
         EvGen 3, EvGrabLock ''balancer'' 3 ''shard1:conn1'' ''shard1'' 150 ''doing balance round''
                    Status_OK,
         EvUnlock 3 Status_OK,
         EvGen 4, EvGrabLock ''balancer'' 4 ''shard1:conn1'' ''shard1'' 150 ''doing balance round''
                    Status_OK],
       oidgen = 5, ext = 5\<rparr>) \<and>
   distinct [0, 1, 2, 3, 4::nat]"
proof -
  let ?E = "test_env (\<lambda>x. if x < 3 then busy else Status_OK) 0 Status_OK Status_OK"
  let ?t1 = "[
         EvGen 0, EvGrabLock ''balancer'' 0 ''shard1:conn1'' ''shard1'' 0 ''doing balance round'' busy,
         EvSleepFor 50,
         EvGen 1, EvGrabLock ''balancer'' 1 ''shard1:conn1'' ''shard1'' 50 ''doing balance round'' busy,
         EvSleepFor 50,
         EvGen 2, EvGrabLock ''balancer'' 2 ''shard1:conn1'' ''shard1'' 100 ''doing balance round'' busy,
         EvSleepFor 50,
         EvGen 3, EvGrabLock ''balancer'' 3 ''shard1:conn1'' ''shard1'' 150 ''doing balance round''
                    Status_OK]"
  let ?w1 = "\<lparr>clock = 150004, trace = ?t1, oidgen = 4::nat, ext = 4::nat\<rparr>"
  let ?w2 = "\<lparr>clock = 150005, trace = ?t1 @ [EvUnlock 3 Status_OK], oidgen = 4::nat, ext = 4::nat\<rparr>"
  let ?w3 = "\<lparr>clock = 150006,
              trace = ?t1 @ [EvUnlock 3 Status_OK, EvGen 4,
                EvGrabLock ''balancer'' 4 ''shard1:conn1'' ''shard1'' 150 ''doing balance round''
                  Status_OK],
              oidgen = 5::nat, ext = 5::nat\<rparr>"
  have first: "lock 9 ?E ''balancer'' ''doing balance round'' 1000 50 manager0 world0 =
     (Some (SWValue 3), manager0, ?w1)"
    unfolding lock_def
    by (((subst lock_loop_numeral)?, subst lock_loop_Suc, simp add: lock_eval)+)
  have second: "lock 1 ?E ''balancer'' ''doing balance round'' 0 50 manager0 ?w2 =
     (Some (SWValue 4), manager0, ?w3)"
    unfolding lock_def One_nat_def
    by (subst lock_loop_Suc, simp add: lock_eval)
  have e1: "exec ?E (CallLock 9 ''balancer'' ''doing balance round'' 1000 50) manager0 world0 =
              Returns (manager0, ?w1)"
    by (simp only: exec.simps first prod.case option.case)
  have e2: "exec ?E (CallUnlock 3) manager0 ?w1 = Returns (manager0, ?w2)"
    by (simp add: unlock_def catalog_unlock_def emit_def elapse_def)
  have e3: "exec ?E (CallLock 1 ''balancer'' ''doing balance round'' 0 50) manager0 ?w2 =
              Returns (manager0, ?w3)"
    by (simp only: exec.simps second prod.case option.case)
  have all: "run ?E [CallLock 9 ''balancer'' ''doing balance round'' 1000 50, CallUnlock 3,
      CallLock 1 ''balancer'' ''doing balance round'' 0 50] manager0 world0 =
      Returns (manager0, ?w3)"
    by (simp only: run.simps e1 e2 e3 outcome.case prod.case)
  have fresh: "fst (OID_gen ?E g) \<notin> {..<g}" for g
    by simp
  have grows: "insert (fst (OID_gen ?E g)) {..<g} \<subseteq> {..<snd (OID_gen ?E g)}" for g
    by auto
  note ids = lock_session_ids_fresh[of ?E "\<lambda>g. {..<g}" 9 "''balancer''" "''doing balance round''"
        1000 50 manager0 world0 "Some (SWValue 3)" manager0 ?w1 "trace ?w1"
        "[CallLock 9 ''balancer'' ''doing balance round'' 1000 50, CallUnlock 3,
          CallLock 1 ''balancer'' ''doing balance round'' 0 50]" manager0 ?w3 "trace ?w3",
        OF fresh grows]
  have one: "lock 9 ?E ''balancer'' ''doing balance round'' 1000 50 manager0 world0 =
               (Some (SWValue 3), manager0, ?w1) \<and> trace ?w1 = trace world0 @ trace ?w1"
    using first by (simp add: world0_def)
  have seq: "run ?E [CallLock 9 ''balancer'' ''doing balance round'' 1000 50, CallUnlock 3,
      CallLock 1 ''balancer'' ''doing balance round'' 0 50] manager0 world0 =
      Returns (manager0, ?w3) \<and> trace ?w3 = trace world0 @ trace ?w3"
    using all by (simp add: world0_def)
  have "distinct (grab_ids (trace ?w1))"
    using ids[THEN conjunct1, THEN mp, OF one] by (elim conjE)
  moreover have "distinct (grab_ids (trace ?w3))"
    using ids[THEN conjunct2, THEN mp, OF seq] by (elim conjE)
  ultimately have "distinct [0, 1, 2, 3, 4::nat]"
    by simp
  with first all show ?thesis
    by simp
qed

section \<open>A catalog that always rejects\<close>

lemma lock_loop_negative:
  assumes neg: "waitFor < 0"
    and rejects: "\<And>name sid who pid now y x.
      code (getStatus (fst (cat_grabLock E name sid who pid now y x))) = LockStateChangeFailed"
  shows "\<exists>w' evs. lock_loop n E name y waitFor ivl t0 mt0 m w = (None, m, w') \<and>
      trace w' = trace w @ evs \<and> length (grab_ids evs) = n \<and> clock w \<le> clock w' \<and>
      (t0 \<le> clock w \<and> - 9223372036854775808 \<le> waitFor \<and>
       millis t0 w' \<le> waitFor + 9223372036854775808 \<longrightarrow>
         sleeps evs = replicate n (min ivl 0))"
proof (induction n arbitrary: w mt0)
  case 0
  show ?case by simp
next
  case (Suc n)
  obtain sid st w2 where att: "attempt E name y m w = (sid, st, w2)"
    by (cases "attempt E name y m w")
  have st: "code st = LockStateChangeFailed"
    using rejects att by (rule attempt_rejected)
  have c2: "clock w \<le> clock w2"
    using att by (rule attempt_cases) simp
  define w4 where "w4 = retry name y waitFor ivl t0 mt0 w2"
  have step: "lock_loop (Suc n) E name y waitFor ivl t0 mt0 m w =
      lock_loop n E name y waitFor ivl t0 (if seconds mt0 w2 > 10 then clock w2 else mt0) m w4"
    using lock_loop_retry[OF _ att st, of waitFor t0] neg by (simp add: w4_def)
  have c4: "clock w2 \<le> clock w4"
    by (simp add: w4_def retry_clock)
  from Suc.IH[of "if seconds mt0 w2 > 10 then clock w2 else mt0" w4] obtain w' evs where
    rec: "lock_loop n E name y waitFor ivl t0 (if seconds mt0 w2 > 10 then clock w2 else mt0) m w4
            = (None, m, w')"
    and evs: "trace w' = trace w4 @ evs" "length (grab_ids evs) = n" "clock w4 \<le> clock w'"
    and sl: "t0 \<le> clock w4 \<and> - 9223372036854775808 \<le> waitFor \<and>
             millis t0 w' \<le> waitFor + 9223372036854775808 \<longrightarrow>
               sleeps evs = replicate n (min ivl 0)"
    by blast
  obtain lg where mid: "trace w4 = trace w @ [EvGen sid,
        EvGrabLock name sid (m_processID m @ '':'' @ getThreadName E) (m_processID m) (Date_now w) y st]
        @ lg @ [EvSleepFor (min ivl (max 0 (wrap64 (waitFor - millis t0 w2))))]"
    and lg: "lg = [] \<or> lg = [EvLogWaited (seconds t0 w2) name y]"
    using attempt_trace[OF att] retry_trace[of name y waitFor ivl t0 mt0 w2] by (auto simp: w4_def)
  define mid where "mid = [EvGen sid,
        EvGrabLock name sid (m_processID m @ '':'' @ getThreadName E) (m_processID m) (Date_now w) y st]
        @ lg @ [EvSleepFor (min ivl (max 0 (wrap64 (waitFor - millis t0 w2))))]"
  have gm: "length (grab_ids mid) = 1"
    and sm: "sleeps mid = [min ivl (max 0 (wrap64 (waitFor - millis t0 w2)))]"
    using lg by (auto simp: mid_def)
  have zero: "sleeps (mid @ evs) = replicate (Suc n) (min ivl 0)"
    if t: "t0 \<le> clock w" and lo: "- 9223372036854775808 \<le> waitFor"
      and hi: "millis t0 w' \<le> waitFor + 9223372036854775808"
  proof -
    have "millis t0 w2 \<le> millis t0 w'"
      using c4 evs(3) by (intro millis_mono) simp
    moreover have "0 \<le> millis t0 w2"
      using t c2 millis_le_iff[of 0 t0 w2] by simp
    ultimately have "wrap64 (waitFor - millis t0 w2) = waitFor - millis t0 w2"
      using neg hi by (intro wrap64_id) simp_all
    with \<open>0 \<le> millis t0 w2\<close> neg
    have "min ivl (max 0 (wrap64 (waitFor - millis t0 w2))) = min ivl 0"
      by simp
    moreover have "sleeps evs = replicate n (min ivl 0)"
      using sl t lo hi c2 c4 by simp
    ultimately show ?thesis
      using sm by (simp add: sleeps_append)
  qed
  show ?case
  proof (rule exI[of _ w'], rule exI[of _ "mid @ evs"], intro conjI impI)
    show "lock_loop (Suc n) E name y waitFor ivl t0 mt0 m w = (None, m, w')"
      using step rec by simp
    show "trace w' = trace w @ mid @ evs"
      using evs(1) mid by (simp add: mid_def)
    show "length (grab_ids (mid @ evs)) = Suc n"
      using gm evs(2) by (simp add: grab_ids_append)
    show "clock w \<le> clock w'"
      using c2 c4 evs(3) by simp
    show "sleeps (mid @ evs) = replicate (Suc n) (min ivl 0)"
      if "t0 \<le> clock w \<and> - 9223372036854775808 \<le> waitFor \<and>
          millis t0 w' \<le> waitFor + 9223372036854775808"
      using that zero by simp
  qed
qed

text \<open>
  With a negative \<^verbatim>\<open>waitFor\<close> and a catalog that always answers
  \<^verbatim>\<open>LockStateChangeFailed\<close>, a call of \<^verbatim>\<open>lock\<close> is still in its loop after any
  number \<open>n\<close> of iterations, having made \<open>n\<close> attempts.  As long as
  \<open>waitFor - elapsed\<close> is a 64-bit count, which it is until the call has lasted
  \<open>waitFor + 2\<^sup>6\<^sup>3\<close> milliseconds, every sleep between two attempts is asked for
  \<open>min lockTryInterval 0\<close>, which is never positive.
\<close>

lemma lock_negative_waitFor_in_range:
  assumes "waitFor < 0"
    and "\<And>name sid who pid now y x.
      code (getStatus (fst (cat_grabLock E name sid who pid now y x))) = LockStateChangeFailed"
    and "lock n E name y waitFor ivl m w = (r, m', w')"
    and "trace w' = trace w @ evs"
  shows "r = None \<and> m' = m \<and> length (grab_ids evs) = n \<and>
         (- 9223372036854775808 \<le> waitFor \<and> millis (clock w) w' \<le> waitFor + 9223372036854775808 \<longrightarrow>
            sleeps evs = replicate n (min ivl 0) \<and> (\<forall>d \<in> set (sleeps evs). d \<le> 0))"
proof -
  from lock_loop_negative[OF assms(1,2), of n name y ivl "clock w" "clock w" m w]
  obtain w'' evs' where run: "lock_loop n E name y waitFor ivl (clock w) (clock w) m w = (None, m, w'')"
    and evs': "trace w'' = trace w @ evs'" "length (grab_ids evs') = n"
      "- 9223372036854775808 \<le> waitFor \<and> millis (clock w) w'' \<le> waitFor + 9223372036854775808 \<longrightarrow>
         sleeps evs' = replicate n (min ivl 0)"
    by auto
  from run assms(3) have eq: "r = None" "m' = m" "w'' = w'"
    by (simp_all add: lock_def)
  with evs'(1) assms(4) have "evs' = evs" by simp
  with evs' eq show ?thesis
    by auto
qed

text \<open>
  C10.  The claim says that with a negative \<^verbatim>\<open>waitFor\<close> the remaining budget
  \<open>max(0, waitFor - elapsed)\<close> is zero on every iteration, so that every sleep is
  \<open>min(lockTryInterval, 0)\<close>.  \<^verbatim>\<open>waitFor - milliseconds(timer.millis())\<close> is
  computed in 64 bits: with \<^verbatim>\<open>waitFor = milliseconds::min()\<close>, a retry every 20 ms
  and a catalog that takes 1 ms to reject, the difference wraps round to a large
  positive budget as soon as a millisecond has passed, and each of the three sleeps
  is asked for the whole 20 ms.
\<close>

theorem lock_negative_waitFor_overflow:
  "lock 3 (test_env (\<lambda>x. busy) 1000 Status_OK Status_OK) ''balancer'' ''doing balance round''
       (- 9223372036854775808) 20 manager0 world0 =
     (None, manager0,
      \<lparr>clock = 63000,
       trace = [
         EvGen 0, EvGrabLock ''balancer'' 0 ''shard1:conn1'' ''shard1'' 0 ''doing balance round'' busy,
         EvSleepFor 20,
         EvGen 1, EvGrabLock ''balancer'' 1 ''shard1:conn1'' ''shard1'' 21 ''doing balance round'' busy,
         EvSleepFor 20,
         EvGen 2, EvGrabLock ''balancer'' 2 ''shard1:conn1'' ''shard1'' 42 ''doing balance round'' busy,
         EvSleepFor 20],
       oidgen = 3, ext = 3\<rparr>)
   \<and> sleeps (trace (snd (snd (lock 3 (test_env (\<lambda>x. busy) 1000 Status_OK Status_OK) ''balancer''
         ''doing balance round'' (- 9223372036854775808) 20 manager0 world0)))) = [20, 20, 20]
   \<and> replicate 3 (min 20 0) = [0, 0, 0::int]"
proof -
  have run: "lock 3 (test_env (\<lambda>x. busy) 1000 Status_OK Status_OK) ''balancer''
       ''doing balance round'' (- 9223372036854775808) 20 manager0 world0 =
     (None, manager0,
      \<lparr>clock = 63000,
       trace = [
         EvGen 0, EvGrabLock ''balancer'' 0 ''shard1:conn1'' ''shard1'' 0 ''doing balance round'' busy,
         EvSleepFor 20,
         EvGen 1, EvGrabLock ''balancer'' 1 ''shard1:conn1'' ''shard1'' 21 ''doing balance round'' busy,
         EvSleepFor 20,
         EvGen 2, EvGrabLock ''balancer'' 2 ''shard1:conn1'' ''shard1'' 42 ''doing balance round'' busy,
         EvSleepFor 20],
       oidgen = 3, ext = 3\<rparr>)"
    unfolding lock_def
    by (((subst lock_loop_numeral)?, subst lock_loop_Suc, simp add: lock_eval)+)
  have "replicate 3 (min 20 0) = [0, 0, 0::int]"
    by (simp add: numeral_3_eq_3)
  with run show ?thesis
    by simp
qed

section \<open>Waiting for a lock that stays busy\<close>

lemma lock_loop_busy:
  assumes pos: "0 < waitFor" and rng: "waitFor < 9223372036854775808"
    and rejects: "\<And>name sid who pid now y x.
      code (getStatus (fst (cat_grabLock E name sid who pid now y x))) = LockStateChangeFailed"
    and latency: "\<And>name sid who pid now y x.
      int (fst (snd (cat_grabLock E name sid who pid now y x))) \<le> 1000 * int L"
    and Lrng: "int L \<le> 9223372036854775808"
  shows "t0 \<le> clock w \<Longrightarrow> millis t0 w \<le> waitFor + int L \<Longrightarrow>
    1000 * waitFor - (clock w - t0) \<le> int k \<Longrightarrow> k < n \<Longrightarrow>
    \<exists>w'. lock_loop n E name y waitFor ivl t0 mt0 m w = (Some (SWStatus (timedOut name)), m, w') \<and>
      waitFor \<le> millis t0 w' \<and> millis t0 w' \<le> waitFor + int L"
proof (induction k arbitrary: n w mt0)
  case 0
  then obtain n' where n: "n = Suc n'" by (cases n) auto
  from 0 have late: "waitFor \<le> millis t0 w"
    by (simp add: millis_le_iff)
  then have "\<not> (waitFor \<le> 0 \<or> millis t0 w < waitFor)"
    using pos by simp
  then show ?case
    using late 0(2) by (simp add: n lock_loop_Suc)
next
  case (Suc k)
  then obtain n' where n: "n = Suc n'" and n': "k < n'" by (cases n) auto
  show ?case
  proof (cases "millis t0 w < waitFor")
    case False
    then have "\<not> (waitFor \<le> 0 \<or> millis t0 w < waitFor)"
      using pos by simp
    then show ?thesis
      using False Suc.prems(2) by (simp add: n lock_loop_Suc)
  next
    case True
    then have e: "clock w - t0 < 1000 * waitFor"
      by (simp add: millis_less_iff)
    obtain sid st w2 where att: "attempt E name y m w = (sid, st, w2)"
      by (cases "attempt E name y m w")
    have st: "code st = LockStateChangeFailed"
      using rejects att by (rule attempt_rejected)
    from att obtain g1 res d x2 where
      c: "cat_grabLock E name sid (m_processID m @ '':'' @ getThreadName E) (m_processID m)
           (Date_now w) y (ext w) = (res, d, x2)" and c2: "clock w2 = clock w + int (max 1 d)"
      by (rule attempt_cases)
    have dL: "int d \<le> 1000 * int L"
      using latency[of name sid "m_processID m @ '':'' @ getThreadName E" "m_processID m"
          "Date_now w" y "ext w"] c
      by simp
    obtain q r where qr: "clock w2 - t0 = 1000 * q + r" "0 \<le> r" "r < 1000"
      and q: "millis t0 w2 = q"
      unfolding millis_def by (rule div1000)
    have q0: "0 \<le> q"
      using qr Suc.prems(1) c2 by (simp add: max_def split: if_splits)
    have qL: "q \<le> waitFor + int L"
      using qr e c2 dL by (simp add: max_def split: if_splits)
    have "wrap64 (waitFor - q) = waitFor - q"
      using q0 qL rng Lrng pos by (intro wrap64_id) simp_all
    define w4 where "w4 = retry name y waitFor ivl t0 mt0 w2"
    have step: "lock_loop n E name y waitFor ivl t0 mt0 m w =
        lock_loop n' E name y waitFor ivl t0 (if seconds mt0 w2 > 10 then clock w2 else mt0) m w4"
      using lock_loop_retry[OF _ att st, of waitFor t0] True pos by (simp add: w4_def n)
    have c4: "clock w4 = clock w2 + 1000 * max 0 (min ivl (max 0 (waitFor - q)))"
      using \<open>wrap64 (waitFor - q) = waitFor - q\<close> by (simp add: w4_def retry_clock q)
    have a: "t0 \<le> clock w4"
      using Suc.prems(1) c2 c4 by (simp add: max_def min_def split: if_splits)
    have b: "1000 * waitFor - (clock w4 - t0) \<le> int k"
      using Suc.prems(3) c2 c4 by (simp add: max_def min_def split: if_splits)
    have "clock w4 - t0 < 1000 * (waitFor + int L + 1)"
      using qr qL c4 by (simp add: max_def min_def split: if_splits)
    then have bound: "millis t0 w4 \<le> waitFor + int L"
      using millis_less_iff[of t0 w4 "waitFor + int L + 1"] by simp
    from Suc.IH[OF a bound b n'] obtain w' where
      rec: "lock_loop n' E name y waitFor ivl t0
              (if seconds mt0 w2 > 10 then clock w2 else mt0) m w4
            = (Some (SWStatus (timedOut name)), m, w')"
      and w': "waitFor \<le> millis t0 w'" "millis t0 w' \<le> waitFor + int L"
      by blast
    show ?thesis
      using step rec w' by (intro exI[of _ w']) simp
  qed
qed

text \<open>
  C4, as the code has it.  With a positive \<^verbatim>\<open>waitFor\<close>, whatever
  \<^verbatim>\<open>lockTryInterval\<close> is, and a catalog that always answers
  \<^verbatim>\<open>LockStateChangeFailed\<close> and takes at most \<open>L\<close> milliseconds to do so
  (\<open>waitFor\<close> and \<open>L\<close> being 64-bit counts of milliseconds), a call of \<^verbatim>\<open>lock\<close>
  returns \<^verbatim>\<open>LockBusy\<close> naming the lock; the time its timer has counted by then is
  at least \<open>waitFor\<close> and at most \<open>waitFor + L\<close> milliseconds.  The call returns
  within \<open>1000 * waitFor + 1\<close> iterations, an iteration taking a microsecond at
  least.
\<close>

theorem lock_always_busy:
  assumes "0 < waitFor" and "waitFor < 9223372036854775808"
    and "\<And>name sid who pid now y x.
      code (getStatus (fst (cat_grabLock E name sid who pid now y x))) = LockStateChangeFailed"
    and "\<And>name sid who pid now y x.
      int (fst (snd (cat_grabLock E name sid who pid now y x))) \<le> 1000 * int L"
    and "int L \<le> 9223372036854775808"
    and "nat (1000 * waitFor) < n"
  shows "\<exists>w'. lock n E name y waitFor ivl m w =
           (Some (SWStatus (Status LockBusy (''timed out waiting for '' @ name))), m, w') \<and>
         waitFor \<le> millis (clock w) w' \<and> millis (clock w) w' \<le> waitFor + int L"
proof -
  have "millis (clock w) w = 0"
    by (simp add: millis_def)
  with lock_loop_busy[of waitFor E L "clock w" w "nat (1000 * waitFor)" n name y ivl "clock w" m,
      OF assms(1-5)] assms(1,6)
  show ?thesis
    by (simp add: lock_def timedOut_def)
qed

text \<open>
  A wait of 100 ms, no pause between attempts and a catalog that takes 25 ms to
  answer: attempts at 0, 25, 50 and 75 ms, and \<^verbatim>\<open>LockBusy\<close> at 100 ms.  With a
  catalog that answers at once the call returns as well, when its timer reads 100 ms.
\<close>

theorem lock_always_busy_witness:
  "lock 100001 (test_env (\<lambda>x. busy) 25000 Status_OK Status_OK) ''balancer'' ''doing balance round''
       100 0 manager0 world0 =
     (Some (SWStatus (Status LockBusy ''timed out waiting for balancer'')), manager0,
      \<lparr>clock = 100000,
       trace = [
         EvGen 0, EvGrabLock ''balancer'' 0 ''shard1:conn1'' ''shard1'' 0 ''doing balance round'' busy,
         EvSleepFor 0,
         EvGen 1, EvGrabLock ''balancer'' 1 ''shard1:conn1'' ''shard1'' 25 ''doing balance round'' busy,
         EvSleepFor 0,
         EvGen 2, EvGrabLock ''balancer'' 2 ''shard1:conn1'' ''shard1'' 50 ''doing balance round'' busy,
         EvSleepFor 0,
         EvGen 3, EvGrabLock ''balancer'' 3 ''shard1:conn1'' ''shard1'' 75 ''doing balance round'' busy,
         EvSleepFor 0],
       oidgen = 4, ext = 4\<rparr>) \<and>
   (\<exists>w'. lock 100001 (test_env (\<lambda>x. busy) 0 Status_OK Status_OK) ''balancer''
            ''doing balance round'' 100 0 manager0 world0 =
          (Some (SWStatus (Status LockBusy ''timed out waiting for balancer'')), manager0, w') \<and>
        millis 0 w' = 100)"
proof -
  let ?E = "test_env (\<lambda>x. busy) 25000 Status_OK Status_OK"
  let ?w = "\<lparr>clock = 100000,
       trace = [
         EvGen 0, EvGrabLock ''balancer'' 0 ''shard1:conn1'' ''shard1'' 0 ''doing balance round'' busy,
         EvSleepFor 0,
         EvGen 1, EvGrabLock ''balancer'' 1 ''shard1:conn1'' ''shard1'' 25 ''doing balance round'' busy,
         EvSleepFor 0,
         EvGen 2, EvGrabLock ''balancer'' 2 ''shard1:conn1'' ''shard1'' 50 ''doing balance round'' busy,
         EvSleepFor 0,
         EvGen 3, EvGrabLock ''balancer'' 3 ''shard1:conn1'' ''shard1'' 75 ''doing balance round'' busy,
         EvSleepFor 0],
       oidgen = 4::nat, ext = 4::nat\<rparr>"
  have run: "lock 100001 ?E ''balancer'' ''doing balance round'' 100 0 manager0 world0 =
     (Some (SWStatus (Status LockBusy ''timed out waiting for balancer'')), manager0, ?w)"
    unfolding lock_def
    by (((subst lock_loop_numeral)?, subst lock_loop_Suc, simp add: lock_eval)+)
  have "\<exists>w'. lock 100001 ?E ''balancer'' ''doing balance round'' 100 0 manager0 world0 =
           (Some (SWStatus (Status LockBusy (''timed out waiting for '' @ ''balancer''))), manager0, w') \<and>
         100 \<le> millis (clock world0) w' \<and> millis (clock world0) w' \<le> 100 + int 25"
    by (rule lock_always_busy[of 100 ?E 25 100001 "''balancer''" "''doing balance round''" 0
          manager0 world0])
       (simp_all add: busy_def isOK_def)
  moreover
  have "\<exists>w'. lock 100001 (test_env (\<lambda>x. busy) 0 Status_OK Status_OK) ''balancer''
            ''doing balance round'' 100 0 manager0 world0 =
           (Some (SWStatus (Status LockBusy (''timed out waiting for '' @ ''balancer''))), manager0, w') \<and>
         100 \<le> millis (clock world0) w' \<and> millis (clock world0) w' \<le> 100 + int 0"
    by (rule lock_always_busy[of 100 "test_env (\<lambda>x. busy) 0 Status_OK Status_OK" 0 100001
          "''balancer''" "''doing balance round''" 0 manager0 world0])
       (simp_all add: busy_def isOK_def)
  then have "\<exists>w'. lock 100001 (test_env (\<lambda>x. busy) 0 Status_OK Status_OK) ''balancer''
            ''doing balance round'' 100 0 manager0 world0 =
          (Some (SWStatus (Status LockBusy ''timed out waiting for balancer'')), manager0, w') \<and>
        millis 0 w' = 100"
    by (auto simp: world0_def)
  ultimately show ?thesis
    using run by simp
qed

text \<open>
  C4 as the spec has it bounds the overshoot by one \<^verbatim>\<open>lockTryInterval\<close>.  A
  catalog that takes 500 ms to answer, a wait of 100 ms and a retry every 10 ms: the
  one attempt ends at 500 ms, and that is when \<^verbatim>\<open>lock\<close> returns.
\<close>

theorem lock_always_busy_slow_catalog:
  "lock 2 (test_env (\<lambda>x. busy) 500000 Status_OK Status_OK) ''balancer'' ''doing balance round'' 100 10
       manager0 world0 =
     (Some (SWStatus (Status LockBusy ''timed out waiting for balancer'')), manager0,
      \<lparr>clock = 500000,
       trace = [
         EvGen 0, EvGrabLock ''balancer'' 0 ''shard1:conn1'' ''shard1'' 0 ''doing balance round'' busy,
         EvSleepFor 0],
       oidgen = 1, ext = 1\<rparr>)
   \<and> millis (clock world0) (snd (snd (lock 2 (test_env (\<lambda>x. busy) 500000 Status_OK Status_OK)
        ''balancer'' ''doing balance round'' 100 10 manager0 world0))) = 500
   \<and> \<not> (500::int) \<le> 100 + 10"
proof -
  have run: "lock 2 (test_env (\<lambda>x. busy) 500000 Status_OK Status_OK) ''balancer''
       ''doing balance round'' 100 10 manager0 world0 =
     (Some (SWStatus (Status LockBusy ''timed out waiting for balancer'')), manager0,
      \<lparr>clock = 500000,
       trace = [
         EvGen 0, EvGrabLock ''balancer'' 0 ''shard1:conn1'' ''shard1'' 0 ''doing balance round'' busy,
         EvSleepFor 0],
       oidgen = 1, ext = 1\<rparr>)"
    unfolding lock_def
    by (((subst lock_loop_numeral)?, subst lock_loop_Suc, simp add: lock_eval)+)
  then show ?thesis
    by (simp add: world0_def millis_def)
qed

section \<open>unlock\<close>

text \<open>
  C5.  A call of \<^verbatim>\<open>unlock\<close> calls the catalog's \<^verbatim>\<open>unlock\<close> once, with the handle.
  When the catalog's status is not OK the handle is appended, once, to the unlock
  queue; otherwise the manager is unchanged.  The call has no result: whatever the
  catalog answered, it returns, and the caller is told nothing.
\<close>

theorem unlock_queues_on_failure:
  assumes "cat_unlock E h (ext w) = (st, d, x)"
  shows "unlock E h m w =
           ((if isOK st then m else m\<lparr>m_unlockList := m_unlockList m @ [h]\<rparr>),
            w\<lparr>clock := clock w + int (max 1 d), trace := trace w @ [EvUnlock h st], ext := x\<rparr>) \<and>
         exec E (CallUnlock h) m w = Returns (unlock E h m w)"
  using assms by (simp add: unlock_def catalog_unlock_def queueUnlock_def emit_def elapse_def)

text \<open>The catalog cannot be reached: the handle 7 is queued.\<close>

theorem unlock_queues_on_failure_witness:
  "unlock (test_env (\<lambda>x. busy) 0 unreachable Status_OK) 7 manager0 world0 =
     (manager0\<lparr>m_unlockList := [7]\<rparr>, \<lparr>clock = 1, trace = [EvUnlock 7 unreachable], oidgen = 0, ext = 0\<rparr>)"
  using unlock_queues_on_failure[of "test_env (\<lambda>x. busy) 0 unreachable Status_OK" 7 world0
      unreachable 0 0 manager0]
  by (simp add: world0_def manager0_def ReplSetDistLockManager_def unreachable_def isOK_def)

section \<open>checkStatus\<close>

text \<open>
  C6.  \<^verbatim>\<open>checkStatus\<close> looks the lock up by its handle.  When the lookup fails, its
  status is the result, unchanged.  When the lookup finds a lock document that is not
  valid, the result is \<^verbatim>\<open>LockNotFound\<close> with the reason "lock owner changed"; when
  the document is valid, the result is OK.
\<close>

theorem checkStatus_cases:
  assumes "cat_getLockByTS E h (ext w) = (r, d, x)"
  shows "(\<not> isOK (getStatus r) \<longrightarrow> fst (checkStatus E h w) = Returns (getStatus r)) \<and>
         (\<forall>lockDoc. r = SWValue lockDoc \<and> \<not> LocksType_isValid E lockDoc \<longrightarrow>
            fst (checkStatus E h w) = Returns (Status LockNotFound ''lock owner changed'')) \<and>
         (\<forall>lockDoc. r = SWValue lockDoc \<and> LocksType_isValid E lockDoc \<longrightarrow>
            fst (checkStatus E h w) = Returns (Status OK []))"
  using assms by (auto simp: checkStatus_def getLockByTS_def Status_OK_def isOK_def)

text \<open>
  The example catalog knows no lock for the handle 0, a valid one for 1 and one that
  is no longer valid for 2.
\<close>

theorem checkStatus_cases_witness:
  "fst (checkStatus (test_env (\<lambda>x. busy) 0 Status_OK Status_OK) 0 world0) =
     Returns (Status LockNotFound ''no such lock'') \<and>
   fst (checkStatus (test_env (\<lambda>x. busy) 0 Status_OK Status_OK) 1 world0) = Returns (Status OK []) \<and>
   fst (checkStatus (test_env (\<lambda>x. busy) 0 Status_OK Status_OK) 2 world0) =
     Returns (Status LockNotFound ''lock owner changed'')"
  using checkStatus_cases[of "test_env (\<lambda>x. busy) 0 Status_OK Status_OK" 0 world0
      "SWStatus (Status LockNotFound ''no such lock'')" 0 0]
    checkStatus_cases[of "test_env (\<lambda>x. busy) 0 Status_OK Status_OK" 1 world0 "SWValue True" 0 0]
    checkStatus_cases[of "test_env (\<lambda>x. busy) 0 Status_OK Status_OK" 2 world0 "SWValue False" 0 0]
  by (auto simp add: world0_def isOK_def Status_OK_def)

section \<open>shutDown\<close>

text \<open>
  C7.  \<^verbatim>\<open>shutDown\<close> returns in every state of the manager, whatever \<^verbatim>\<open>stopPing\<close>
  answers: it neither crashes nor waits for ever.  The last thing it does is the
  \<^verbatim>\<open>stopPing\<close> call, followed by a warning when that failed, and nothing of the
  failure reaches the caller.  When \<^verbatim>\<open>startUp\<close> was never called it does nothing
  else than set the flag: no thread is joined.  A second call returns too, leaves
  the manager as it is and joins nothing: all it does is the \<^verbatim>\<open>stopPing\<close> call
  and its warning.
\<close>

theorem shutDown_safe:
  "\<exists>m1 w1 w2 st st' evs.
     shutDown E m w = Returns (m1, w1) \<and>
     trace w1 = trace w @ evs @ EvStopPing (m_processID m) st #
                  (if isOK st then [] else [EvWarnStopPing (m_processID m) st]) \<and>
     (m_execThread m = None \<longrightarrow> m1 = m\<lparr>m_isShutDown := True\<rparr> \<and> evs = []) \<and>
     shutDown E m1 w1 = Returns (m1, w2) \<and>
     trace w2 = trace w1 @ EvStopPing (m_processID m) st' #
                  (if isOK st' then [] else [EvWarnStopPing (m_processID m) st'])"
proof -
  from shutDown_returns[of E m w] obtain m1 w1 st evs where
    first: "shutDown E m w = Returns (m1, w1)" "m_isShutDown m1" "m_processID m1 = m_processID m"
      "m_execThread m1 = None \<or> (\<exists>t. m_execThread m1 = Some t \<and> \<not> joinable t)"
      "m_execThread m = None \<or> (\<exists>t. m_execThread m = Some t \<and> \<not> joinable t) \<longrightarrow>
        m1 = m\<lparr>m_isShutDown := True\<rparr> \<and> evs = []"
      "trace w1 = trace w @ evs @ EvStopPing (m_processID m) st #
                  (if isOK st then [] else [EvWarnStopPing (m_processID m) st])"
    by blast
  from shutDown_returns[of E m1 w1] obtain m2 w2 st' evs' where
    second: "shutDown E m1 w1 = Returns (m2, w2)"
      "m_execThread m1 = None \<or> (\<exists>t. m_execThread m1 = Some t \<and> \<not> joinable t) \<longrightarrow>
        m2 = m1\<lparr>m_isShutDown := True\<rparr> \<and> evs' = []"
      "trace w2 = trace w1 @ evs' @ EvStopPing (m_processID m1) st' #
                  (if isOK st' then [] else [EvWarnStopPing (m_processID m1) st'])"
    by blast
  have "m1\<lparr>m_isShutDown := True\<rparr> = m1"
    using first(2) by (cases m1) simp
  with first(4) second(2) have same: "m2 = m1" "evs' = []"
    by simp_all
  show ?thesis
    using first(1,3,5,6) second(1,3) same
    by (intro exI[of _ m1] exI[of _ w1] exI[of _ w2] exI[of _ st] exI[of _ st'] exI[of _ evs]) simp
qed

text \<open>
  A manager that was never started and a catalog that cannot be reached: each of
  the two calls is the \<^verbatim>\<open>stopPing\<close> call and its warning.
\<close>

theorem shutDown_safe_witness:
  "shutDown (test_env (\<lambda>x. busy) 0 Status_OK unreachable) manager0 world0 =
     Returns (manager0\<lparr>m_isShutDown := True\<rparr>,
       \<lparr>clock = 1,
        trace = [EvStopPing ''shard1'' unreachable, EvWarnStopPing ''shard1'' unreachable],
        oidgen = 0, ext = 0\<rparr>) \<and>
   shutDown (test_env (\<lambda>x. busy) 0 Status_OK unreachable) (manager0\<lparr>m_isShutDown := True\<rparr>)
       \<lparr>clock = 1,
        trace = [EvStopPing ''shard1'' unreachable, EvWarnStopPing ''shard1'' unreachable],
        oidgen = 0, ext = 0\<rparr> =
     Returns (manager0\<lparr>m_isShutDown := True\<rparr>,
       \<lparr>clock = 2,
        trace = [EvStopPing ''shard1'' unreachable, EvWarnStopPing ''shard1'' unreachable,
                 EvStopPing ''shard1'' unreachable, EvWarnStopPing ''shard1'' unreachable],
        oidgen = 0, ext = 0\<rparr>)"
proof -
  let ?E = "test_env (\<lambda>x. busy) 0 Status_OK unreachable"
  from shutDown_safe[of ?E manager0 world0] obtain m1 w1 w2 st st' where
    first: "shutDown ?E manager0 world0 = Returns (m1, w1)"
      "m1 = manager0\<lparr>m_isShutDown := True\<rparr>"
    and second: "shutDown ?E m1 w1 = Returns (m1, w2)"
    by (auto simp: manager0_def ReplSetDistLockManager_def)
  have w1: "shutDown ?E manager0 world0 =
      Returns (manager0\<lparr>m_isShutDown := True\<rparr>,
       \<lparr>clock = 1,
        trace = [EvStopPing ''shard1'' unreachable, EvWarnStopPing ''shard1'' unreachable],
        oidgen = 0, ext = 0\<rparr>)"
    by (simp add: shutDown_def stopPing_def emit_def elapse_def world0_def manager0_def
        ReplSetDistLockManager_def unreachable_def isOK_def)
  with first have w1_eq: "w1 = \<lparr>clock = 1,
        trace = [EvStopPing ''shard1'' unreachable, EvWarnStopPing ''shard1'' unreachable],
        oidgen = 0, ext = 0\<rparr>"
    by simp
  have "trace w2 = [EvStopPing ''shard1'' unreachable, EvWarnStopPing ''shard1'' unreachable,
          EvStopPing ''shard1'' unreachable, EvWarnStopPing ''shard1'' unreachable] \<and>
        clock w2 = 2 \<and> oidgen w2 = 0 \<and> ext w2 = 0"
    using second unfolding first(2) w1_eq
    by (simp add: shutDown_def stopPing_def emit_def elapse_def manager0_def
        ReplSetDistLockManager_def unreachable_def isOK_def)
       (auto)
  then have "w2 = \<lparr>clock = 2,
        trace = [EvStopPing ''shard1'' unreachable, EvWarnStopPing ''shard1'' unreachable,
                 EvStopPing ''shard1'' unreachable, EvWarnStopPing ''shard1'' unreachable],
        oidgen = 0, ext = 0\<rparr>"
    by (cases w2) simp
  with w1 second first(2) w1_eq show ?thesis
    by simp
qed

section \<open>The shutdown flag\<close>

lemma run_keeps_flag_set:
  "run E cs m w = Returns (m', w') \<Longrightarrow> m_isShutDown m \<Longrightarrow> m_isShutDown m'"
proof (induction cs arbitrary: m w)
  case Nil
  then show ?case by simp
next
  case (Cons c cs)
  from Cons.prems(1) obtain m1 w1 where
    e: "exec E c m w = Returns (m1, w1)" and r: "run E cs m1 w1 = Returns (m', w')"
    by (auto split: outcome.splits)
  have "m_isShutDown m1"
  proof (cases "c = CallShutDown")
    case True
    with e shutDown_flag_set show ?thesis by auto
  next
    case False
    with exec_keeps_flag[OF e] Cons.prems(2) show ?thesis by simp
  qed
  with Cons.IH[OF r] show ?case .
qed

text \<open>
  C8.  The shutdown flag is false in a manager that has just been constructed.  Of
  the calls on a manager and the steps of its background task, \<^verbatim>\<open>shutDown\<close>
  sets the flag and every other one leaves it as it is.  So through any sequence of
  calls that return, a flag that is set stays set: once \<^verbatim>\<open>isShutDown()\<close> has
  returned true, it returns true ever after.
\<close>

theorem shutdown_flag_monotone:
  "\<not> isShutDown (ReplSetDistLockManager processID pingInterval) \<and>
   (exec E c m w = Returns (m', w') \<longrightarrow>
      (if c = CallShutDown then isShutDown m' else isShutDown m' = isShutDown m)) \<and>
   (run E cs m w = Returns (m'', w'') \<and> isShutDown m \<longrightarrow> isShutDown m'')"
proof (intro conjI impI)
  show "\<not> isShutDown (ReplSetDistLockManager processID pingInterval)"
    by (simp add: isShutDown_def ReplSetDistLockManager_def)
next
  assume e: "exec E c m w = Returns (m', w')"
  show "if c = CallShutDown then isShutDown m' else isShutDown m' = isShutDown m"
  proof (cases "c = CallShutDown")
    case True
    with e shutDown_flag_set[of E m w m' w'] show ?thesis
      by (simp add: isShutDown_def)
  next
    case False
    with exec_keeps_flag[OF e] show ?thesis
      by (simp add: isShutDown_def)
  qed
next
  assume "run E cs m w = Returns (m'', w'') \<and> isShutDown m"
  then show "isShutDown m''"
    using run_keeps_flag_set[of E cs m w m'' w''] by (simp add: isShutDown_def)
qed

text \<open>
  After \<^verbatim>\<open>shutDown\<close>, a failed \<^verbatim>\<open>unlock\<close>, a \<^verbatim>\<open>startUp\<close>, a step of the new
  background task (which sees the flag and returns), a \<^verbatim>\<open>lock\<close> and a
  \<^verbatim>\<open>checkStatus\<close>: the flag is still set.
\<close>

theorem shutdown_flag_monotone_witness:
  "\<not> isShutDown manager0 \<and>
   run (test_env (\<lambda>x. busy) 0 unreachable Status_OK)
     [CallShutDown, CallIsShutDown, CallUnlock 7, CallStartUp, BackgroundStep,
      CallLock 1 ''balancer'' ''doing balance round'' 0 500, CallCheckStatus 1, CallIsShutDown]
     manager0 world0 =
   Returns
     (\<lparr>m_processID = ''shard1'', m_pingInterval = 30000, m_isShutDown = True, m_unlockList = [7],
       m_execThread = Some \<lparr>joinable = True, pc = Returned\<rparr>\<rparr>,
      \<lparr>clock = 4,
       trace = [EvStopPing ''shard1'' Status_OK, EvUnlock 7 unreachable, EvGen 0,
                EvGrabLock ''balancer'' 0 ''shard1:conn1'' ''shard1'' 0 ''doing balance round'' busy,
                EvGetLockByTS 1],
       oidgen = 1, ext = 1\<rparr>) \<and>
   isShutDown
     \<lparr>m_processID = ''shard1'', m_pingInterval = 30000, m_isShutDown = True, m_unlockList = [7],
       m_execThread = Some \<lparr>joinable = True, pc = Returned\<rparr>\<rparr>"
proof -
  let ?E = "test_env (\<lambda>x. busy) 0 unreachable Status_OK"
  let ?m1 = "manager0\<lparr>m_isShutDown := True\<rparr>"
  let ?w1 = "\<lparr>clock = 1, trace = [EvStopPing ''shard1'' Status_OK], oidgen = 0::nat, ext = 0::nat\<rparr>"
  let ?m2 = "\<lparr>m_processID = ''shard1'', m_pingInterval = 30000, m_isShutDown = True,
             m_unlockList = [7], m_execThread = Some \<lparr>joinable = True, pc = Returned\<rparr>\<rparr>"
  let ?w2 = "\<lparr>clock = 4,
       trace = [EvStopPing ''shard1'' Status_OK, EvUnlock 7 unreachable, EvGen 0,
                EvGrabLock ''balancer'' 0 ''shard1:conn1'' ''shard1'' 0 ''doing balance round'' busy,
                EvGetLockByTS 1],
       oidgen = 1::nat, ext = 1::nat\<rparr>"
  have first: "exec ?E CallShutDown manager0 world0 = Returns (?m1, ?w1)"
    by (simp add: shutDown_def stopPing_def emit_def elapse_def world0_def manager0_def
        ReplSetDistLockManager_def)
  have lk: "lock (Suc 0) ?E name y 0 ivl m w =
            (Some (SWStatus (timedOut name)), m,
             w\<lparr>clock := clock w + 1,
               trace := trace w @ [EvGen (oidgen w),
                 EvGrabLock name (oidgen w) (m_processID m @ '':'' @ ''conn1'') (m_processID m)
                   (Date_now w) y busy],
               oidgen := Suc (oidgen w), ext := Suc (ext w)\<rparr>)"
    for name y ivl m and w :: "(nat, nat) world"
    unfolding lock_def
    by (simp add: lock_loop_Suc attempt_test_env)
  have rest: "run ?E [CallIsShutDown, CallUnlock 7, CallStartUp, BackgroundStep,
      CallLock 1 ''balancer'' ''doing balance round'' 0 500, CallCheckStatus 1, CallIsShutDown]
      ?m1 ?w1 = Returns (?m2, ?w2)"
    by (simp add: lk unlock_def catalog_unlock_def startUp_def background_step_def isShutDown_def
        checkStatus_def getLockByTS_def queueUnlock_def emit_def elapse_def manager0_def
        ReplSetDistLockManager_def Date_now_def)
  from first rest have all: "run ?E [CallShutDown, CallIsShutDown, CallUnlock 7, CallStartUp,
      BackgroundStep, CallLock 1 ''balancer'' ''doing balance round'' 0 500, CallCheckStatus 1,
      CallIsShutDown] manager0 world0 = Returns (?m2, ?w2)"
    by simp
  have "\<not> isShutDown manager0" "isShutDown ?m1" "isShutDown ?m2"
    using shutdown_flag_monotone[of "''shard1''" 30000 ?E CallShutDown manager0 world0 ?m1 ?w1]
      shutdown_flag_monotone[of "''shard1''" 30000 ?E CallIsShutDown ?m1 ?w1 ?m1 ?w1
        "[CallIsShutDown, CallUnlock 7, CallStartUp, BackgroundStep,
          CallLock 1 ''balancer'' ''doing balance round'' 0 500, CallCheckStatus 1, CallIsShutDown]"
        ?m2 ?w2] first rest
    by (simp_all add: manager0_def)
  with all show ?thesis by simp
qed

section \<open>The unlocks owed to the catalog\<close>

lemma run_append:
  "run E (cs @ cs') m w =
     (case run E cs m w of
        Returns (m', w') \<Rightarrow> run E cs' m' w'
      | Crashes f \<Rightarrow> Crashes f
      | Blocks \<Rightarrow> Blocks)"
  by (induction cs arbitrary: m w) (auto split: outcome.splits)

lemma doTask_step_owed:
  assumes fails: "\<And>h x. \<not> isOK (fst (cat_unlock E h x))"
    and run: "\<not> m_isShutDown m"
    and step: "doTask_step E ts m w = (ts', m', w')"
  shows "mset (m_unlockList m') + mset (pending ts') =
         mset (m_unlockList m) + mset (pending ts)"
proof (cases ts)
  case LoopHead
  with run step show ?thesis
    by (auto simp: isShutDown_def pending_def split: prod.splits)
next
  case (InBatch xs)
  show ?thesis
  proof (cases xs)
    case Nil
    with InBatch step show ?thesis
      by (auto simp: pending_def split: prod.splits)
  next
    case (Cons toUnlock rest)
    obtain st d x where c: "cat_unlock E toUnlock (ext w) = (st, d, x)"
      by (metis prod_cases3)
    with fails[of toUnlock "ext w"] have "\<not> isOK st"
      by simp
    with InBatch Cons step run c show ?thesis
      by (auto simp: catalog_unlock_def isShutDown_def queueUnlock_def pending_def Let_def)
  qed
next
  case Returned
  with step show ?thesis by simp
qed

lemma doTask_owed:
  assumes fails: "\<And>h x. \<not> isOK (fst (cat_unlock E h x))"
  shows "\<not> m_isShutDown m \<Longrightarrow> doTask n E ts m w = (ts', m', w') \<Longrightarrow>
         mset (m_unlockList m') + mset (pending ts') = mset (m_unlockList m) + mset (pending ts)"
proof (induction n arbitrary: ts m w)
  case 0
  then show ?case by simp
next
  case (Suc n)
  obtain ts1 m1 w1 where s: "doTask_step E ts m w = (ts1, m1, w1)"
    by (cases "doTask_step E ts m w")
  with Suc.prems(2) have r: "doTask n E ts1 m1 w1 = (ts', m', w')"
    by simp
  have "\<not> m_isShutDown m1"
    using doTask_step_manager[OF s] Suc.prems(1) by simp
  from Suc.IH[OF this r] doTask_step_owed[OF fails Suc.prems(1) s] show ?case
    by simp
qed

lemma exec_owed:
  assumes fails: "\<And>h x. \<not> isOK (fst (cat_unlock E h x))"
    and run: "\<not> m_isShutDown m"
    and thr: "\<forall>t. m_execThread m = Some t \<longrightarrow> joinable t"
    and c: "c \<noteq> CallShutDown"
    and e: "exec E c m w = Returns (m', w')"
  shows "owed m \<subseteq># owed m' \<and> (\<forall>t. m_execThread m' = Some t \<longrightarrow> joinable t)"
proof (cases c)
  case CallStartUp
  with e thr show ?thesis
    by (auto simp: startUp_def owed_def batch_def pending_def split: option.splits if_splits)
next
  case CallShutDown
  with c show ?thesis by simp
next
  case CallIsShutDown
  with e thr show ?thesis by auto
next
  case (CallLock n name y waitFor ivl)
  with e obtain r where "lock_loop n E name y waitFor ivl (clock w) (clock w) m w = (r, m', w')"
    by (auto simp: lock_def split: prod.splits option.splits)
  from lock_loop_manager[OF this] thr show ?thesis
    by (auto simp: queueUnlock_def owed_def batch_def)
next
  case (CallUnlock h)
  with e thr show ?thesis
    by (auto simp: unlock_def queueUnlock_def owed_def batch_def split: prod.splits if_splits)
next
  case (CallCheckStatus h)
  with e thr show ?thesis
    by (auto split: prod.splits outcome.splits)
next
  case BackgroundStep
  show ?thesis
  proof (cases "m_execThread m")
    case None
    with e BackgroundStep show ?thesis
      by (simp add: background_step_def)
  next
    case (Some t)
    obtain ts1 m1 w1 where s: "doTask_step E (pc t) m w = (ts1, m1, w1)"
      by (cases "doTask_step E (pc t) m w")
    from e BackgroundStep Some s have m': "m' = m1\<lparr>m_execThread := Some (t\<lparr>pc := ts1\<rparr>)\<rparr>"
      by (simp add: background_step_def)
    from thr Some have "joinable t" by simp
    with doTask_step_owed[OF fails run s] m' Some show ?thesis
      by (simp add: owed_def batch_def)
  qed
qed

lemma run_owed:
  assumes fails: "\<And>h x. \<not> isOK (fst (cat_unlock E h x))"
  shows "\<not> m_isShutDown m \<Longrightarrow> \<forall>t. m_execThread m = Some t \<longrightarrow> joinable t \<Longrightarrow>
         CallShutDown \<notin> set cs \<Longrightarrow> run E cs m w = Returns (m', w') \<Longrightarrow> owed m \<subseteq># owed m'"
proof (induction cs arbitrary: m w)
  case Nil
  then show ?case by simp
next
  case (Cons c cs)
  from Cons.prems(4) obtain m1 w1 where
    e: "exec E c m w = Returns (m1, w1)" and r: "run E cs m1 w1 = Returns (m', w')"
    by (auto split: outcome.splits)
  from Cons.prems(3) have c: "c \<noteq> CallShutDown" and cs: "CallShutDown \<notin> set cs"
    by auto
  from exec_owed[OF fails Cons.prems(1,2) c e]
  have o: "owed m \<subseteq># owed m1" and thr: "\<forall>t. m_execThread m1 = Some t \<longrightarrow> joinable t"
    by auto
  have "\<not> m_isShutDown m1"
    using exec_keeps_flag[OF e c] Cons.prems(1) by simp
  from Cons.IH[OF this thr cs r] o show ?case
    by (rule subset_mset.order_trans[rotated])
qed

text \<open>
  C2, as the code has it.  Let every \<^verbatim>\<open>unlock\<close> call of the catalog fail.  As long
  as the shutdown flag is not set, no id is lost: through any number of steps of
  \<^verbatim>\<open>doTask\<close> running alone, the multiset of the ids in the unlock queue and in the
  rest of the batch the task has swapped out stays the same; through any sequence
  of calls other than \<^verbatim>\<open>shutDown\<close>, with the steps of the background task among
  them, it never shrinks.  An iteration of the \<^verbatim>\<open>for\<close> loop puts the id it
  attempted back with \<^verbatim>\<open>queueUnlock\<close>; it goes on with the rest of the batch when
  the flag is not set, and returns from \<^verbatim>\<open>doTask\<close> when it is, leaving the rest of
  the batch behind.
\<close>

theorem unlock_queue_keeps_ids:
  assumes "\<And>h x. \<not> isOK (fst (cat_unlock E h x))"
  shows "(\<not> isShutDown m \<and> doTask n E ts m w = (ts', m2, w2) \<longrightarrow>
            mset (m_unlockList m2) + mset (pending ts') =
            mset (m_unlockList m) + mset (pending ts)) \<and>
         (\<not> isShutDown m \<and> (\<forall>t. m_execThread m = Some t \<longrightarrow> joinable t) \<and>
          CallShutDown \<notin> set cs \<and> run E cs m w = Returns (m', w') \<longrightarrow> owed m \<subseteq># owed m') \<and>
         (doTask_step E (InBatch (toUnlock # rest)) m w = (ts1, m1, w1) \<longrightarrow>
            m1 = queueUnlock toUnlock m \<and>
            ts1 = (if isShutDown m then Returned else InBatch rest))"
proof (intro conjI impI)
  assume "\<not> isShutDown m \<and> doTask n E ts m w = (ts', m2, w2)"
  then show "mset (m_unlockList m2) + mset (pending ts') =
             mset (m_unlockList m) + mset (pending ts)"
    using doTask_owed[of E m n ts w ts' m2 w2] assms by (simp add: isShutDown_def)
next
  assume "\<not> isShutDown m \<and> (\<forall>t. m_execThread m = Some t \<longrightarrow> joinable t) \<and>
          CallShutDown \<notin> set cs \<and> run E cs m w = Returns (m', w')"
  then show "owed m \<subseteq># owed m'"
    using run_owed[of E m cs w m' w'] assms by (simp add: isShutDown_def)
next
  assume step: "doTask_step E (InBatch (toUnlock # rest)) m w = (ts1, m1, w1)"
  obtain st d x where c: "cat_unlock E toUnlock (ext w) = (st, d, x)"
    by (metis prod_cases3)
  with assms[of toUnlock "ext w"] have "\<not> isOK st"
    by simp
  with step c show "m1 = queueUnlock toUnlock m"
    by (auto simp: catalog_unlock_def Let_def split: if_splits)
  from \<open>\<not> isOK st\<close> step c show "ts1 = (if isShutDown m then Returned else InBatch rest)"
    by (auto simp: catalog_unlock_def Let_def isShutDown_def queueUnlock_def split: if_splits)
qed

text \<open>
  Two handles in the queue and a catalog that cannot be reached: the task swaps the
  queue out, attempts 7 and 8, puts both back and waits.
\<close>

theorem unlock_queue_keeps_ids_witness:
  "run (test_env (\<lambda>x. busy) 0 unreachable Status_OK)
     [BackgroundStep, BackgroundStep, BackgroundStep, BackgroundStep]
     (manager0\<lparr>m_unlockList := [7, 8], m_execThread := Some \<lparr>joinable = True, pc = LoopHead\<rparr>\<rparr>)
     world0 =
   Returns
     (manager0\<lparr>m_unlockList := [7, 8], m_execThread := Some \<lparr>joinable = True, pc = LoopHead\<rparr>\<rparr>,
      \<lparr>clock = 30000003,
       trace = [EvPing ''shard1'' 0, EvUnlock 7 unreachable, EvWarnUnlock 7 unreachable,
                EvUnlock 8 unreachable, EvWarnUnlock 8 unreachable, EvWaitFor 30000],
       oidgen = 0, ext = 0\<rparr>) \<and>
   owed (manager0\<lparr>m_unlockList := [7, 8],
           m_execThread := Some \<lparr>joinable = True, pc = LoopHead\<rparr>\<rparr>) = {#7, 8#}"
proof -
  let ?E = "test_env (\<lambda>x. busy) 0 unreachable Status_OK"
  let ?m = "manager0\<lparr>m_unlockList := [7, 8],
              m_execThread := Some \<lparr>joinable = True, pc = LoopHead\<rparr>\<rparr>"
  let ?w = "\<lparr>clock = 30000003,
       trace = [EvPing ''shard1'' 0, EvUnlock 7 unreachable, EvWarnUnlock 7 unreachable,
                EvUnlock 8 unreachable, EvWarnUnlock 8 unreachable, EvWaitFor 30000],
       oidgen = 0::nat, ext = 0::nat\<rparr>"
  have run: "run ?E [BackgroundStep, BackgroundStep, BackgroundStep, BackgroundStep] ?m world0 =
               Returns (?m, ?w)"
    by (simp add: background_step_def isShutDown_def ping_def catalog_unlock_def queueUnlock_def
        emit_def elapse_def Let_def world0_def manager0_def ReplSetDistLockManager_def Date_now_def)
  have "owed ?m \<subseteq># owed ?m"
    using unlock_queue_keeps_ids[of ?E ?m _ _ world0 _ _ _ "[BackgroundStep, BackgroundStep,
        BackgroundStep, BackgroundStep]" ?m ?w] run
    by (simp add: isShutDown_def manager0_def ReplSetDistLockManager_def)
  moreover have "owed ?m = {#7, 8#}"
    by (simp add: owed_def batch_def pending_def manager0_def ReplSetDistLockManager_def)
  ultimately show ?thesis
    using run by simp
qed

text \<open>
  C2 as the spec has it says that no id is ever lost when every \<^verbatim>\<open>unlock\<close> of the
  catalog fails.  Two unlocks fail and queue 7 and 8; the task is started and swaps
  the queue out; \<^verbatim>\<open>shutDown\<close> sets the flag and joins the task, which attempts 7,
  puts it back, sees the flag and returns.  The handle 8 is in no queue any more.
\<close>

theorem unlock_queue_loses_id_at_shutDown:
  "run (test_env (\<lambda>x. busy) 0 unreachable Status_OK)
     [CallUnlock 7, CallUnlock 8, CallStartUp, BackgroundStep] manager0 world0 =
   Returns
     (\<lparr>m_processID = ''shard1'', m_pingInterval = 30000, m_isShutDown = False, m_unlockList = [],
       m_execThread = Some \<lparr>joinable = True, pc = InBatch [7, 8]\<rparr>\<rparr>,
      \<lparr>clock = 3,
       trace = [EvUnlock 7 unreachable, EvUnlock 8 unreachable, EvPing ''shard1'' 0],
       oidgen = 0, ext = 0\<rparr>) \<and>
   run (test_env (\<lambda>x. busy) 0 unreachable Status_OK)
     [CallUnlock 7, CallUnlock 8, CallStartUp, BackgroundStep, CallShutDown] manager0 world0 =
   Returns
     (\<lparr>m_processID = ''shard1'', m_pingInterval = 30000, m_isShutDown = True, m_unlockList = [7],
       m_execThread = None\<rparr>,
      \<lparr>clock = 5,
       trace = [EvUnlock 7 unreachable, EvUnlock 8 unreachable, EvPing ''shard1'' 0, EvJoin,
                EvUnlock 7 unreachable, EvWarnUnlock 7 unreachable, EvStopPing ''shard1'' Status_OK],
       oidgen = 0, ext = 0\<rparr>) \<and>
   owed \<lparr>m_processID = ''shard1'', m_pingInterval = 30000, m_isShutDown = False, m_unlockList = [],
         m_execThread = Some \<lparr>joinable = True, pc = InBatch [7, 8]\<rparr>\<rparr> = {#7, 8#} \<and>
   owed \<lparr>m_processID = ''shard1'', m_pingInterval = 30000, m_isShutDown = True, m_unlockList = [7],
         m_execThread = None\<rparr> = {#7#}"
proof -
  let ?E = "test_env (\<lambda>x. busy) 0 unreachable Status_OK"
  let ?mA = "\<lparr>m_processID = ''shard1'', m_pingInterval = 30000, m_isShutDown = False,
              m_unlockList = [], m_execThread = Some \<lparr>joinable = True, pc = InBatch [7, 8]\<rparr>\<rparr>"
  let ?wA = "\<lparr>clock = 3,
       trace = [EvUnlock 7 unreachable, EvUnlock 8 unreachable, EvPing ''shard1'' 0],
       oidgen = 0::nat, ext = 0::nat\<rparr>"
  let ?mB = "\<lparr>m_processID = ''shard1'', m_pingInterval = 30000, m_isShutDown = True,
              m_unlockList = [7], m_execThread = None\<rparr>"
  let ?wB = "\<lparr>clock = 5,
       trace = [EvUnlock 7 unreachable, EvUnlock 8 unreachable, EvPing ''shard1'' 0, EvJoin,
                EvUnlock 7 unreachable, EvWarnUnlock 7 unreachable, EvStopPing ''shard1'' Status_OK],
       oidgen = 0::nat, ext = 0::nat\<rparr>"
  have before: "run ?E [CallUnlock 7, CallUnlock 8, CallStartUp, BackgroundStep] manager0 world0 =
                  Returns (?mA, ?wA)"
    by (simp add: unlock_def startUp_def background_step_def isShutDown_def ping_def
        catalog_unlock_def queueUnlock_def emit_def elapse_def world0_def manager0_def
        ReplSetDistLockManager_def Date_now_def)
  have step: "doTask_step ?E (InBatch (h # hs)) m w =
                (Returned, queueUnlock h m,
                 emit (EvWarnUnlock h unreachable)
                   (emit (EvUnlock h unreachable) (w\<lparr>clock := clock w + 1\<rparr>)))"
    if "m_isShutDown m" for h hs m and w :: "(nat, nat) world"
    using that
    by (cases w) (simp add: catalog_unlock_def isShutDown_def queueUnlock_def emit_def elapse_def)
  have join: "join_task ?E (InBatch (h # hs)) m w =
                Some (queueUnlock h m,
                      emit (EvWarnUnlock h unreachable)
                   (emit (EvUnlock h unreachable) (w\<lparr>clock := clock w + 1\<rparr>)))"
    if "m_isShutDown m" for h hs m and w :: "(nat, nat) world"
    using join_task_step[OF _ step[OF that]] by (simp add: join_task_Returned)
  have after: "shutDown ?E ?mA ?wA = Returns (?mB, ?wB)"
    by (simp add: shutDown_def thread_join_def join stopPing_def queueUnlock_def emit_def
        elapse_def)
  have "run ?E ([CallUnlock 7, CallUnlock 8, CallStartUp, BackgroundStep] @ [CallShutDown])
          manager0 world0 = Returns (?mB, ?wB)"
    unfolding run_append before using after by simp
  moreover have "owed ?mA = {#7, 8#}" "owed ?mB = {#7#}"
    by (simp_all add: owed_def batch_def pending_def)
  ultimately show ?thesis
    using before by simp
qed

end
